theory Spec2Isabelle
  imports Main "HOL-Library.Multiset"
begin

section \<open>Data model\<close>

text \<open>
  Modelled from the spec: the \<open>Player\<close> record of the ranking project (its header is not
  among the sources). A player has a display name and a numeric level, the rank key, and
  players are compared by level only. The C++ members end in an underscore, which a
  constant of the logic cannot: \<open>name_\<close>, \<open>level_\<close>, \<open>cutoffs_\<close> and \<open>current_\<close> are written without
  it, \<open>top_\<close> is \<open>top_players\<close>, and \<open>players_\<close> of the vector stream is \<open>stream_players\<close>.
\<close>

record Player =
  name :: string
  level :: nat

text \<open>\<open>operator<\<close> and \<open>operator>\<close> of \<open>Player\<close>.\<close>

definition player_lt :: "Player \<Rightarrow> Player \<Rightarrow> bool" where
  "player_lt a b = (level a < level b)"

definition player_gt :: "Player \<Rightarrow> Player \<Rightarrow> bool" where
  "player_gt a b = (level b < level a)"

text \<open>
  Undefined behaviour of the C++ program is a value of the model: an element access outside
  the vector is \<open>OutOfBounds\<close>, a call of a library routine outside its precondition is
  \<open>PreconditionViolated\<close>, and the exception of an exhausted stream is \<open>ExhaustedSource\<close>.
\<close>

datatype error = OutOfBounds | ExhaustedSource | DivisionByZero | PreconditionViolated

text \<open>The result of a ranking; the elapsed wall-clock time is left out of the model.\<close>

record RankingResult =
  top_players :: "Player list"
  cutoffs :: "nat \<rightharpoonup> nat"

section \<open>Element access\<close>

text \<open>Reading position \<open>i\<close> of an iterator range or vector, modelled as a list.\<close>

definition at :: "'a list \<Rightarrow> nat \<Rightarrow> error + 'a" where
  "at xs i = (if i < length xs then Inr (xs ! i) else Inl OutOfBounds)"

text \<open>\<open>std::iter_swap\<close> on two positions of the range.\<close>

definition iter_swap :: "'a list \<Rightarrow> nat \<Rightarrow> nat \<Rightarrow> error + 'a list" where
  "iter_swap xs i j =
     (if i < length xs \<and> j < length xs then Inr (xs[i := xs ! j, j := xs ! i])
      else Inl OutOfBounds)"

text \<open>\<open>array[i]\<close> and \<open>std::swap(array[i], array[j])\<close> with \<open>int\<close> indices.\<close>

definition at_int :: "'a list \<Rightarrow> int \<Rightarrow> error + 'a" where
  "at_int xs i = (if 0 \<le> i \<and> i < int (length xs) then Inr (xs ! nat i) else Inl OutOfBounds)"

definition swap_int :: "'a list \<Rightarrow> int \<Rightarrow> int \<Rightarrow> error + 'a list" where
  "swap_int xs i j =
     (if 0 \<le> i \<and> i < int (length xs) \<and> 0 \<le> j \<and> j < int (length xs)
      then Inr (xs[nat i := xs ! nat j, nat j := xs ! nat i])
      else Inl OutOfBounds)"

section \<open>Heap primitives\<close>

text \<open>
  The choice between the two children in \<open>Online::percolateDown\<close>: \<open>child\<close> is the left
  child; the right child is looked at only when \<open>child + 1\<close> is not the end of the range.
\<close>

definition pick_child :: "Player list \<Rightarrow> nat \<Rightarrow> bool \<Rightarrow> error + nat" where
  "pick_child xs child mx =
     (if child + 1 \<noteq> length xs then
        (case at xs child of
           Inl e \<Rightarrow> Inl e
         | Inr a \<Rightarrow>
            (case at xs (child + 1) of
               Inl e \<Rightarrow> Inl e
             | Inr b \<Rightarrow>
                 if mx \<and> player_lt a b then Inr (child + 1)
                 else if \<not> mx \<and> player_lt b a then Inr (child + 1)
                 else Inr child))
      else Inr child)"

text \<open>
  The loop of \<open>Online::percolateDown\<close>. The list is the range \<open>[start, end)\<close>, \<open>i\<close> the
  distance of \<open>itr\<close> from \<open>start\<close>, and \<open>temp\<close> the copy of the root taken on entry. That the
  loop ends is proved with the properties of the heap primitives.
\<close>

function percolateDown_loop :: "Player list \<Rightarrow> nat \<Rightarrow> Player \<Rightarrow> bool \<Rightarrow> error + Player list" where
  "percolateDown_loop xs i temp mx =
     (if 2 * i + 1 < length xs then
        (case pick_child xs (2 * i + 1) mx of
           Inl e \<Rightarrow> Inl e
         | Inr child \<Rightarrow>
            (case at xs child of
               Inl e \<Rightarrow> Inl e
             | Inr c \<Rightarrow>
                 if mx \<and> player_gt c temp then
                   (case iter_swap xs i child of
                      Inl e \<Rightarrow> Inl e
                    | Inr xs' \<Rightarrow> percolateDown_loop xs' child temp mx)
                 else if \<not> mx \<and> player_lt c temp then
                   (case iter_swap xs i child of
                      Inl e \<Rightarrow> Inl e
                    | Inr xs' \<Rightarrow> percolateDown_loop xs' child temp mx)
                 else Inr xs))
      else Inr xs)"
  by pat_completeness auto

text \<open>\<open>Online::percolateDown(root, start, end, max)\<close>: \<open>root\<close> is given by its distance from \<open>start\<close>.\<close>

definition percolateDown :: "nat \<Rightarrow> Player list \<Rightarrow> bool \<Rightarrow> error + Player list" where
  "percolateDown root xs mx =
     (case at xs root of
        Inl e \<Rightarrow> Inl e
      | Inr temp \<Rightarrow> percolateDown_loop xs root temp mx)"

text \<open>\<open>Online::replaceMin(first, last, target)\<close>: the write through \<open>first\<close>, then the percolation.\<close>

definition replaceMin :: "Player list \<Rightarrow> Player \<Rightarrow> error + Player list" where
  "replaceMin xs target =
     (if xs = [] then Inl OutOfBounds
      else percolateDown 0 (xs[0 := target]) False)"

section \<open>The standard library\<close>

text \<open>
  \<open>std::make_heap\<close>, \<open>std::pop_heap\<close> and \<open>std::sort\<close> are called by the rankers and are not
  code of the repository. The C++ standard fixes what each call establishes and leaves the
  arrangement it produces to the implementation, so the model takes the four calls the
  rankers make as parameters:
  \<^item> \<open>make_heap_greater\<close>: \<open>std::make_heap(first, last, std::greater<Player>())\<close>, a min-heap;
  \<^item> \<open>make_heap_less\<close>: \<open>std::make_heap(first, last, std::less<Player>())\<close>, a max-heap;
  \<^item> \<open>pop_heap_less\<close>: \<open>std::pop_heap(first, last)\<close> on a max-heap;
  \<^item> \<open>sort_less\<close>: \<open>std::sort(first, last)\<close>.
  Each maps the range it is given to the range it leaves.
\<close>

record stdlib =
  make_heap_greater :: "Player list \<Rightarrow> Player list"
  make_heap_less :: "Player list \<Rightarrow> Player list"
  pop_heap_less :: "Player list \<Rightarrow> Player list"
  sort_less :: "Player list \<Rightarrow> Player list"

section \<open>Player streams\<close>

text \<open>
  The abstract class \<open>PlayerStream\<close> has two virtual methods. A stream is a state of some
  type \<open>'s\<close> with the two methods as functions on it; \<open>nextPlayer\<close> returns the player and
  the advanced state, or the error it throws.
\<close>

record 's PlayerStream =
  remaining :: "'s \<Rightarrow> nat"
  nextPlayer :: "'s \<Rightarrow> error + Player \<times> 's"

record VectorPlayerStream =
  stream_players :: "Player list"
  current :: nat

definition VectorPlayerStream_init :: "Player list \<Rightarrow> VectorPlayerStream" where
  "VectorPlayerStream_init ps = \<lparr>stream_players = ps, current = 0\<rparr>"

text \<open>
  \<open>players_.size() - current_\<close>; the two methods keep \<open>current_\<close> at most the size, so the
  unsigned subtraction does not wrap.
\<close>

definition VectorPlayerStream_remaining :: "VectorPlayerStream \<Rightarrow> nat" where
  "VectorPlayerStream_remaining s = length (stream_players s) - current s"

definition VectorPlayerStream_nextPlayer ::
    "VectorPlayerStream \<Rightarrow> error + Player \<times> VectorPlayerStream" where
  "VectorPlayerStream_nextPlayer s =
     (if VectorPlayerStream_remaining s > 0 then
        (let s' = s\<lparr>current := current s + 1\<rparr> in
         case at (stream_players s') (current s' - 1) of
           Inl e \<Rightarrow> Inl e
         | Inr p \<Rightarrow> Inr (p, s'))
      else Inl ExhaustedSource)"

definition vector_stream :: "VectorPlayerStream PlayerStream" where
  "vector_stream =
     \<lparr>remaining = VectorPlayerStream_remaining, nextPlayer = VectorPlayerStream_nextPlayer\<rparr>"

section \<open>The online ranker\<close>

text \<open>\<open>cutoffs_.insert({k, v})\<close> on the unordered map: a key that is present keeps its value.\<close>

definition cutoffs_insert :: "(nat \<rightharpoonup> nat) \<Rightarrow> nat \<Rightarrow> nat \<Rightarrow> (nat \<rightharpoonup> nat)" where
  "cutoffs_insert m k v = (case m k of None \<Rightarrow> m(k \<mapsto> v) | Some w \<Rightarrow> m)"

text \<open>
  The body of the loop of \<open>Online::rankIncoming\<close> after the pull and \<open>read++\<close>: the three-way
  branch on \<open>read\<close>, then the milestone. \<open>min_top.front()\<close> and \<open>min_top[0]\<close> are element
  accesses, and \<open>read % reporting_interval\<close> divides.
\<close>

definition rank_step ::
    "stdlib \<Rightarrow> nat \<Rightarrow> nat \<Rightarrow> Player \<Rightarrow> Player list \<Rightarrow> (nat \<rightharpoonup> nat) \<Rightarrow>
       error + Player list \<times> (nat \<rightharpoonup> nat)" where
  "rank_step L reporting_interval read current_player min_top cs =
     (case (if read < reporting_interval then Inr (min_top @ [current_player])
            else if read = reporting_interval then
              Inr (make_heap_greater L (min_top @ [current_player]))
            else
              (case at min_top 0 of
                 Inl e \<Rightarrow> Inl e
               | Inr front \<Rightarrow>
                   if level front \<le> level current_player
                   then replaceMin min_top current_player
                   else Inr min_top)) of
        Inl e \<Rightarrow> Inl e
      | Inr min_top' \<Rightarrow>
          if reporting_interval = 0 then Inl DivisionByZero
          else if read mod reporting_interval = 0 \<and> min_top' \<noteq> [] then
            (case at min_top' 0 of
               Inl e \<Rightarrow> Inl e
             | Inr m \<Rightarrow> Inr (min_top', cutoffs_insert cs read (level m)))
          else Inr (min_top', cs))"

text \<open>
  The loop \<open>while (stream.remaining() > 0)\<close>. Whether it ends depends on the stream, so not
  returning is the value \<open>None\<close>. An exception of \<open>nextPlayer\<close> leaves the function.
\<close>

partial_function (option) rankIncoming_loop ::
    "'s PlayerStream \<Rightarrow> stdlib \<Rightarrow> nat \<Rightarrow> 's \<Rightarrow> nat \<Rightarrow> Player list \<Rightarrow> (nat \<rightharpoonup> nat) \<Rightarrow>
       (error + nat \<times> Player list \<times> (nat \<rightharpoonup> nat)) option" where
  "rankIncoming_loop S L reporting_interval stream read min_top cs =
     (if remaining S stream > 0 then
        (case nextPlayer S stream of
           Inl e \<Rightarrow> Some (Inl e)
         | Inr (current_player, stream') \<Rightarrow>
            (case rank_step L reporting_interval (read + 1) current_player min_top cs of
               Inl e \<Rightarrow> Some (Inl e)
             | Inr (min_top', cs') \<Rightarrow>
                 rankIncoming_loop S L reporting_interval stream' (read + 1) min_top' cs'))
      else Some (Inr (read, min_top, cs)))"

text \<open>
  \<open>Online::rankIncoming\<close>: the loop, the final \<open>cutoffs_.insert({read, min_top[0].level_})\<close>,
  and \<open>std::sort\<close>.
\<close>

definition rankIncoming ::
    "'s PlayerStream \<Rightarrow> stdlib \<Rightarrow> 's \<Rightarrow> nat \<Rightarrow> (error + RankingResult) option" where
  "rankIncoming S L stream reporting_interval =
     (case rankIncoming_loop S L reporting_interval stream 0 [] Map.empty of
        None \<Rightarrow> None
      | Some (Inl e) \<Rightarrow> Some (Inl e)
      | Some (Inr (read, min_top, cs)) \<Rightarrow>
          (case at min_top 0 of
             Inl e \<Rightarrow> Some (Inl e)
           | Inr m \<Rightarrow>
               Some (Inr \<lparr>top_players = sort_less L min_top,
                          cutoffs = cutoffs_insert cs read (level m)\<rparr>)))"

declare rankIncoming_loop.simps [code]

section \<open>The offline selectors\<close>

text \<open>
  \<open>std::floor(0.1 * players.size())\<close> stored in an \<open>int\<close>: a tenth of the size, rounded down.
  The indices of the offline selectors are C++ \<open>int\<close>s and the model's are unbounded
  integers, which agree for vectors of fewer than \<open>2^31\<close> players.
\<close>

definition top_tenth :: "nat \<Rightarrow> int" where
  "top_tenth n = int n div 10"

subsection \<open>Selection by heap\<close>

text \<open>
  The loop \<open>for (int i = 0; i < top_10; ++i) std::pop_heap(players.begin(), players.end() - i)\<close>.
  \<open>std::pop_heap\<close> needs a non-empty range.
\<close>

function heapRank_loop :: "stdlib \<Rightarrow> Player list \<Rightarrow> int \<Rightarrow> int \<Rightarrow> error + Player list" where
  "heapRank_loop L players i top_10 =
     (if i < top_10 then
        (if i < 0 \<or> int (length players) \<le> i then Inl PreconditionViolated
         else
           (let n = length players - nat i in
            heapRank_loop L (pop_heap_less L (take n players) @ drop n players) (i + 1) top_10))
      else Inr players)"
  by pat_completeness auto

termination
  by (relation "measure (\<lambda>(L, players, i, top_10). nat (top_10 - i))") auto

declare heapRank_loop.simps [simp del]

text \<open>
  \<open>Offline::heapRank\<close>. The result is the tail of \<open>top_10\<close> players, which must lie in the
  vector.
\<close>

definition heapRank :: "stdlib \<Rightarrow> Player list \<Rightarrow> error + RankingResult" where
  "heapRank L players =
     (if length players \<le> 1 then Inr \<lparr>top_players = players, cutoffs = Map.empty\<rparr>
      else
        (let top_10 = top_tenth (length players) in
         case heapRank_loop L (make_heap_less L players) 0 top_10 of
           Inl e \<Rightarrow> Inl e
         | Inr players' \<Rightarrow>
             if 0 \<le> top_10 \<and> top_10 \<le> int (length players')
             then Inr \<lparr>top_players = drop (length players' - nat top_10) players',
                       cutoffs = Map.empty\<rparr>
             else Inl OutOfBounds))"

subsection \<open>Selection by partition\<close>

text \<open>The loop of \<open>Offline::lomuto_partition\<close>: \<open>for (int j = i; j < high; ++j)\<close>.\<close>

function lomuto_loop ::
    "Player list \<Rightarrow> int \<Rightarrow> int \<Rightarrow> int \<Rightarrow> int \<Rightarrow> error + Player list \<times> int" where
  "lomuto_loop array high pivot i j =
     (if j < high then
        (case at_int array j of
           Inl e \<Rightarrow> Inl e
         | Inr aj \<Rightarrow>
            (case at_int array pivot of
               Inl e \<Rightarrow> Inl e
             | Inr ap \<Rightarrow>
                 if player_gt aj ap then
                   (case swap_int array i j of
                      Inl e \<Rightarrow> Inl e
                    | Inr array' \<Rightarrow> lomuto_loop array' high pivot (i + 1) (j + 1))
                 else lomuto_loop array high pivot i (j + 1)))
      else Inr (array, i))"
  by pat_completeness auto

termination
  by (relation "measure (\<lambda>(array, high, pivot, i, j). nat (high - j))") auto

declare lomuto_loop.simps [simp del]

text \<open>\<open>Offline::lomuto_partition\<close>: the loop from \<open>i = low\<close>, then the swap of the pivot into place.\<close>

definition lomuto_partition ::
    "Player list \<Rightarrow> int \<Rightarrow> int \<Rightarrow> int \<Rightarrow> error + Player list \<times> int" where
  "lomuto_partition array low high pivot =
     (case lomuto_loop array high pivot low low of
        Inl e \<Rightarrow> Inl e
      | Inr (array', i) \<Rightarrow>
          (case swap_int array' pivot i of
             Inl e \<Rightarrow> Inl e
           | Inr array'' \<Rightarrow> Inr (array'', i)))"

text \<open>
  \<open>Offline::quickSelect\<close>, which partitions with the pivot at \<open>high\<close>. That the recursion ends
  is proved with the properties of the offline selectors, as for \<open>hoare_loop\<close> and
  \<open>quickSort\<close> below.
\<close>

function quickSelect :: "Player list \<Rightarrow> int \<Rightarrow> int \<Rightarrow> int \<Rightarrow> error + Player list" where
  "quickSelect array low high k =
     (if low \<le> high \<and> low \<ge> 0 then
        (case lomuto_partition array low high high of
           Inl e \<Rightarrow> Inl e
         | Inr (array', index) \<Rightarrow>
             if index < k then quickSelect array' (index + 1) high k
             else quickSelect array' low (index - 1) k)
      else Inr array)"
  by pat_completeness auto

text \<open>
  The two scans of \<open>Offline::hoare_partition\<close>. The left scan is
  \<open>do { i++; } while ((array[i] < pivot_value) && i <= high)\<close>: it reads \<open>array[i]\<close> before it
  compares \<open>i\<close> with \<open>high\<close>. The right scan is
  \<open>do { j--; } while ((array[j] > pivot_value) && j >= low)\<close>.
\<close>

function hoare_scan_left :: "Player list \<Rightarrow> Player \<Rightarrow> int \<Rightarrow> int \<Rightarrow> error + int" where
  "hoare_scan_left array pivot_value high i =
     (let i' = i + 1 in
      case at_int array i' of
        Inl e \<Rightarrow> Inl e
      | Inr v \<Rightarrow>
          if player_lt v pivot_value \<and> i' \<le> high
          then hoare_scan_left array pivot_value high i'
          else Inr i')"
  by pat_completeness auto

termination
  by (relation "measure (\<lambda>(array, pivot_value, high, i). nat (high - i))") auto

function hoare_scan_right :: "Player list \<Rightarrow> Player \<Rightarrow> int \<Rightarrow> int \<Rightarrow> error + int" where
  "hoare_scan_right array pivot_value low j =
     (let j' = j - 1 in
      case at_int array j' of
        Inl e \<Rightarrow> Inl e
      | Inr v \<Rightarrow>
          if player_gt v pivot_value \<and> j' \<ge> low
          then hoare_scan_right array pivot_value low j'
          else Inr j')"
  by pat_completeness auto

termination
  by (relation "measure (\<lambda>(array, pivot_value, low, j). nat (j - low))") auto

declare hoare_scan_left.simps [simp del] hoare_scan_right.simps [simp del]

text \<open>The outer loop \<open>while (true)\<close> of \<open>Offline::hoare_partition\<close>.\<close>

function hoare_loop ::
    "Player list \<Rightarrow> Player \<Rightarrow> int \<Rightarrow> int \<Rightarrow> int \<Rightarrow> int \<Rightarrow> error + Player list \<times> int" where
  "hoare_loop array pivot_value low high i j =
     (case hoare_scan_left array pivot_value high i of
        Inl e \<Rightarrow> Inl e
      | Inr i' \<Rightarrow>
          (case hoare_scan_right array pivot_value low j of
             Inl e \<Rightarrow> Inl e
           | Inr j' \<Rightarrow>
               if i' > j' then Inr (array, j')
               else
                 (case swap_int array i' j' of
                    Inl e \<Rightarrow> Inl e
                  | Inr array' \<Rightarrow> hoare_loop array' pivot_value low high i' j')))"
  by pat_completeness auto

text \<open>\<open>Offline::hoare_partition\<close>: the pivot value is copied, and the loop starts outside the range.\<close>

definition hoare_partition ::
    "Player list \<Rightarrow> int \<Rightarrow> int \<Rightarrow> int \<Rightarrow> error + Player list \<times> int" where
  "hoare_partition array low high pivot =
     (case at_int array pivot of
        Inl e \<Rightarrow> Inl e
      | Inr pivot_value \<Rightarrow> hoare_loop array pivot_value low high (low - 1) (high + 1))"

text \<open>\<open>Offline::quickSort\<close>, which partitions with the pivot at \<open>high\<close>.\<close>

function quickSort :: "Player list \<Rightarrow> int \<Rightarrow> int \<Rightarrow> error + Player list" where
  "quickSort array low high =
     (if low < high \<and> low \<ge> 0 then
        (case hoare_partition array low high high of
           Inl e \<Rightarrow> Inl e
         | Inr (array', pivot) \<Rightarrow>
             (case quickSort array' low pivot of
                Inl e \<Rightarrow> Inl e
              | Inr array'' \<Rightarrow> quickSort array'' (pivot + 1) high))
      else Inr array)"
  by pat_completeness auto

text \<open>
  \<open>Offline::quickSelectRank\<close>. \<open>players.size() - 1\<close> is passed as an \<open>int\<close>, which is \<open>-1\<close> for
  the empty vector; the result is the head of \<open>top_10\<close> players, which must lie in the
  vector.
\<close>

definition quickSelectRank :: "Player list \<Rightarrow> error + RankingResult" where
  "quickSelectRank players =
     (let top_10 = top_tenth (length players) in
      case quickSelect players 0 (int (length players) - 1) top_10 of
        Inl e \<Rightarrow> Inl e
      | Inr players' \<Rightarrow>
          (case quickSort players' 0 (top_10 - 1) of
             Inl e \<Rightarrow> Inl e
           | Inr players'' \<Rightarrow>
               if 0 \<le> top_10 \<and> top_10 \<le> int (length players'')
               then Inr \<lparr>top_players = take (nat top_10) players'', cutoffs = Map.empty\<rparr>
               else Inl OutOfBounds))"

section \<open>Vocabulary of the properties\<close>

subsection \<open>Heap order\<close>

text \<open>
  Position \<open>c > 0\<close> of a range has its parent at \<open>(c - 1) div 2\<close>. In a max-heap a parent's
  level is at least its child's, in a min-heap at most.
\<close>

definition parent :: "nat \<Rightarrow> nat" where
  "parent c = (c - 1) div 2"

definition heap_ord :: "bool \<Rightarrow> Player \<Rightarrow> Player \<Rightarrow> bool" where
  "heap_ord mx p c = (if mx then level c \<le> level p else level p \<le> level c)"

definition is_heap :: "bool \<Rightarrow> Player list \<Rightarrow> bool" where
  "is_heap mx xs = list_all (\<lambda>c. heap_ord mx (xs ! parent c) (xs ! c)) [1..<length xs]"

text \<open>Every node but \<open>r\<close> is in heap order with its children.\<close>

definition heap_except :: "bool \<Rightarrow> Player list \<Rightarrow> nat \<Rightarrow> bool" where
  "heap_except mx xs r =
     list_all (\<lambda>c. parent c = r \<or> heap_ord mx (xs ! parent c) (xs ! c)) [1..<length xs]"

text \<open>The parent of \<open>r\<close>, when \<open>r\<close> has one, is in heap order with the children of \<open>r\<close>.\<close>

definition bridged :: "bool \<Rightarrow> Player list \<Rightarrow> nat \<Rightarrow> bool" where
  "bridged mx xs r =
     (r = 0 \<or> list_all (\<lambda>c. parent c \<noteq> r \<or> heap_ord mx (xs ! parent r) (xs ! c)) [1..<length xs])"

subsection \<open>Conforming libraries and pull sequences\<close>

text \<open>
  A library conforms when its routines keep the promises of the standard: \<open>make_heap\<close>
  permutes the range into a heap; \<open>pop_heap\<close>, on a non-empty heap, moves the first element
  to the last position and leaves a heap of the others in front of it; \<open>sort\<close> permutes the
  range into non-decreasing order.
\<close>

definition conforming :: "stdlib \<Rightarrow> bool" where
  "conforming L \<longleftrightarrow>
     (\<forall>xs. mset (make_heap_greater L xs) = mset xs \<and> is_heap False (make_heap_greater L xs)) \<and>
     (\<forall>xs. mset (make_heap_less L xs) = mset xs \<and> is_heap True (make_heap_less L xs)) \<and>
     (\<forall>xs. xs \<noteq> [] \<and> is_heap True xs \<longrightarrow>
        (\<exists>ys. pop_heap_less L xs = ys @ [hd xs] \<and> mset ys = mset (tl xs) \<and> is_heap True ys)) \<and>
     (\<forall>xs. mset (sort_less L xs) = mset xs \<and> sorted (map level (sort_less L xs)))"

text \<open>
  One conforming library, for running the rankers: a range sorted by level is a min-heap,
  and one sorted downwards is a max-heap.
\<close>

definition ref_stdlib :: stdlib where
  "ref_stdlib =
     \<lparr>make_heap_greater = sort_key level,
      make_heap_less = (\<lambda>xs. rev (sort_key level xs)),
      pop_heap_less = (\<lambda>xs. rev (sort_key level (tl xs)) @ [hd xs]),
      sort_less = sort_key level\<rparr>"

text \<open>
  The contract of a pull sequence: \<open>nextPlayer\<close> fails, with \<open>ExhaustedSource\<close>, exactly when
  nothing remains, and a successful call lowers \<open>remaining\<close> by one.
\<close>

definition pull_contract :: "'s PlayerStream \<Rightarrow> bool" where
  "pull_contract S \<longleftrightarrow>
     (\<forall>s. (remaining S s = 0 \<longrightarrow> nextPlayer S s = Inl ExhaustedSource) \<and>
          (remaining S s > 0 \<longrightarrow>
             (\<exists>p s'. nextPlayer S s = Inr (p, s') \<and> remaining S s' + 1 = remaining S s)))"

text \<open>The records a stream yields from a state on: at most \<open>n\<close> pulls.\<close>

fun drain :: "'s PlayerStream \<Rightarrow> nat \<Rightarrow> 's \<Rightarrow> Player list" where
  "drain S 0 s = []"
| "drain S (Suc n) s =
     (case nextPlayer S s of
        Inl e \<Rightarrow> []
      | Inr (p, s') \<Rightarrow> p # drain S n s')"

definition streamed :: "'s PlayerStream \<Rightarrow> 's \<Rightarrow> Player list" where
  "streamed S s = drain S (remaining S s) s"

subsection \<open>The largest levels\<close>

text \<open>The \<open>k\<close> largest of a list of levels, in ascending order.\<close>

definition largest :: "nat \<Rightarrow> nat list \<Rightarrow> nat list" where
  "largest k ks = drop (length ks - k) (sort ks)"

text \<open>
  \<open>T\<close> is a part of \<open>M\<close> none of whose members is below a member of the rest of \<open>M\<close>:
  the largest members of \<open>M\<close>, as many as \<open>T\<close> has.
\<close>

definition is_topk :: "nat multiset \<Rightarrow> nat multiset \<Rightarrow> bool" where
  "is_topk T M \<longleftrightarrow> T \<subseteq># M \<and> (\<forall>a\<in>#T. \<forall>b\<in>#(M - T). b \<le> a)"

subsection \<open>The loop of the online ranker\<close>

text \<open>
  The body of the loop of \<open>rankIncoming\<close> run over a list of records. Under the contract
  of a pull sequence the loop ends and is this run over the records the stream yields.
\<close>

fun rank_steps ::
    "stdlib \<Rightarrow> nat \<Rightarrow> Player list \<Rightarrow> nat \<Rightarrow> Player list \<Rightarrow> (nat \<rightharpoonup> nat) \<Rightarrow>
       error + nat \<times> Player list \<times> (nat \<rightharpoonup> nat)" where
  "rank_steps L r [] read min_top cs = Inr (read, min_top, cs)"
| "rank_steps L r (p # ps) read min_top cs =
     (case rank_step L r (read + 1) p min_top cs of
        Inl e \<Rightarrow> Inl e
      | Inr (min_top', cs') \<Rightarrow> rank_steps L r ps (read + 1) min_top' cs')"

text \<open>The recorded cutoffs do not decrease from a milestone to a later one.\<close>

definition cutoffs_mono :: "(nat \<rightharpoonup> nat) \<Rightarrow> bool" where
  "cutoffs_mono cs \<longleftrightarrow>
     (\<forall>k1 k2 v1 v2. k1 < k2 \<and> cs k1 = Some v1 \<and> cs k2 = Some v2 \<longrightarrow> v1 \<le> v2)"

text \<open>
  The cutoffs recorded after \<open>read\<close> records, with \<open>m\<close> the least level of \<open>min_top\<close>: no
  milestone is beyond \<open>read\<close>, no cutoff above \<open>m\<close>, and the cutoffs do not decrease.
\<close>

definition cs_ok :: "(nat \<rightharpoonup> nat) \<Rightarrow> nat \<Rightarrow> nat \<Rightarrow> bool" where
  "cs_ok cs read m \<longleftrightarrow> (\<forall>k v. cs k = Some v \<longrightarrow> k \<le> read \<and> v \<le> m) \<and> cutoffs_mono cs"

text \<open>
  The invariant of the loop of \<open>rankIncoming\<close> after the records \<open>seen\<close>: below the
  reporting interval \<open>min_top\<close> is the records read and no cutoff is recorded; from the
  interval on it is a min-heap of as many records as the interval, holding the largest
  levels read.
\<close>

definition rank_inv :: "nat \<Rightarrow> Player list \<Rightarrow> nat \<Rightarrow> Player list \<Rightarrow> (nat \<rightharpoonup> nat) \<Rightarrow> bool" where
  "rank_inv r seen read mt cs \<longleftrightarrow>
     read = length seen \<and>
     (read < r \<longrightarrow> mt = seen \<and> cs = Map.empty) \<and>
     (r \<le> read \<longrightarrow> length mt = r \<and> is_heap False mt \<and>
        is_topk (mset (map level mt)) (mset (map level seen)) \<and>
        cs_ok cs read (level (mt ! 0)))"

subsection \<open>Partitions\<close>

text \<open>
  What a partition or sort of the positions \<open>low .. high\<close> leaves: a vector of the same
  length and the same players, equal to the old one outside the positions, each position
  inside holding what some position inside held.
\<close>

definition range_perm :: "Player list \<Rightarrow> Player list \<Rightarrow> int \<Rightarrow> int \<Rightarrow> bool" where
  "range_perm a a' low high \<longleftrightarrow>
     length a' = length a \<and> mset a' = mset a \<and>
     (\<forall>k. 0 \<le> k \<and> k < int (length a) \<and> (k < low \<or> high < k) \<longrightarrow> a' ! nat k = a ! nat k) \<and>
     (\<forall>k. low \<le> k \<and> k \<le> high \<longrightarrow> (\<exists>k'. low \<le> k' \<and> k' \<le> high \<and> a' ! nat k = a ! nat k'))"

text \<open>
  The invariant of the outer loop of \<open>hoare_partition\<close>, with \<open>pv\<close> the level of the pivot
  value: either the loop is entered for the first time, with the pivot at \<open>high\<close>, or a
  swap has been made, the positions up to \<open>i\<close> hold levels of at most \<open>pv\<close>, the positions
  from \<open>j\<close> on hold levels of at least \<open>pv\<close>, and a position below \<open>j\<close> stops the right
  scan inside the range.
\<close>

definition hoare_inv :: "Player list \<Rightarrow> nat \<Rightarrow> int \<Rightarrow> int \<Rightarrow> int \<Rightarrow> int \<Rightarrow> bool" where
  "hoare_inv a pv low high i j \<longleftrightarrow>
     (i = low - 1 \<and> j = high + 1 \<and> level (a ! nat high) = pv \<and> low < high) \<or>
     (low \<le> i \<and> i \<le> j \<and> j \<le> high \<and>
      (\<forall>k. low \<le> k \<and> k \<le> i \<longrightarrow> level (a ! nat k) \<le> pv) \<and>
      (\<forall>k. j \<le> k \<and> k \<le> high \<longrightarrow> pv \<le> level (a ! nat k)) \<and>
      (\<exists>s. low \<le> s \<and> s < j \<and> level (a ! nat s) \<le> pv))"

text \<open>
  The vector is split at \<open>m\<close>: every position below \<open>m\<close> holds a level at least that of
  every position from \<open>m\<close> on.
\<close>

definition split_at :: "Player list \<Rightarrow> int \<Rightarrow> bool" where
  "split_at a m \<longleftrightarrow>
     (\<forall>x y. 0 \<le> x \<and> x < m \<and> m \<le> y \<and> y < int (length a) \<longrightarrow>
        level (a ! nat y) \<le> level (a ! nat x))"

subsection \<open>Concrete players\<close>

text \<open>A player of a given level, for the concrete inputs below.\<close>

definition anon :: "nat \<Rightarrow> Player" where
  "anon n = \<lparr>name = [], level = n\<rparr>"

section \<open>Properties of the heap primitives\<close>

lemma at_Inr_iff: "at xs i = Inr v \<longleftrightarrow> i < length xs \<and> v = xs ! i"
  by (auto simp: at_def)

lemma at_in_range: "i < length xs \<Longrightarrow> at xs i = Inr (xs ! i)"
  by (simp add: at_def)

lemma iter_swap_Inr_iff:
  "iter_swap xs i j = Inr ys \<longleftrightarrow>
     i < length xs \<and> j < length xs \<and> ys = xs[i := xs ! j, j := xs ! i]"
  by (auto simp: iter_swap_def)

lemma pick_child_bounds:
  "pick_child xs child mx = Inr c \<Longrightarrow> c = child \<or> c = child + 1"
  by (auto simp: pick_child_def split: if_splits sum.splits)

termination percolateDown_loop
proof (relation "measure (\<lambda>(xs, i, temp, mx). length xs - i)", goal_cases)
  case 1
  show ?case by simp
next
  case (2 xs i temp mx child c xs')
  then show ?case
    using pick_child_bounds[of xs "2 * i + 1" mx child]
    by (auto simp: at_Inr_iff iter_swap_Inr_iff)
next
  case (3 xs i temp mx child c xs')
  then show ?case
    using pick_child_bounds[of xs "2 * i + 1" mx child]
    by (auto simp: at_Inr_iff iter_swap_Inr_iff)
qed

declare percolateDown_loop.simps [simp del]

lemma is_heap_iff:
  "is_heap mx xs \<longleftrightarrow> (\<forall>c. 0 < c \<and> c < length xs \<longrightarrow> heap_ord mx (xs ! parent c) (xs ! c))"
  by (auto simp: is_heap_def list_all_iff)

lemma heap_except_iff:
  "heap_except mx xs r \<longleftrightarrow>
     (\<forall>c. 0 < c \<and> c < length xs \<and> parent c \<noteq> r \<longrightarrow> heap_ord mx (xs ! parent c) (xs ! c))"
  by (auto simp: heap_except_def list_all_iff Suc_le_eq)

lemma bridged_iff:
  "bridged mx xs r \<longleftrightarrow>
     (0 < r \<longrightarrow> (\<forall>c. 0 < c \<and> c < length xs \<and> parent c = r \<longrightarrow> heap_ord mx (xs ! parent r) (xs ! c)))"
  by (auto simp: bridged_def list_all_iff Suc_le_eq)

lemma parent_eq_iff: "0 < c \<Longrightarrow> parent c = i \<longleftrightarrow> c = 2 * i + 1 \<or> c = 2 * i + 2"
  by (auto simp: parent_def)

lemma parent_less: "0 < c \<Longrightarrow> parent c < c"
  by (auto simp: parent_def)

lemma heap_ord_refl: "heap_ord mx p p"
  by (simp add: heap_ord_def)

text \<open>
  With a left child in the range, \<open>pick_child\<close> reads inside the range only and returns the
  child that is extremal among the one or two children.
\<close>

lemma pick_child_spec:
  assumes "2 * i + 1 < length xs"
  shows "\<exists>c. pick_child xs (2 * i + 1) mx = Inr c \<and> c < length xs \<and> parent c = i \<and> 0 < c \<and>
           (\<forall>d. 0 < d \<and> d < length xs \<and> parent d = i \<longrightarrow> heap_ord mx (xs ! c) (xs ! d))"
proof (cases "2 * i + 2 = length xs")
  case True
  then have pc: "pick_child xs (2 * i + 1) mx = Inr (2 * i + 1)"
    by (simp add: pick_child_def)
  have "heap_ord mx (xs ! (2 * i + 1)) (xs ! d)"
    if "0 < d" "d < length xs" "parent d = i" for d
  proof -
    from that True have "d = 2 * i + 1" by (simp add: parent_eq_iff)
    then show ?thesis by (simp add: heap_ord_refl)
  qed
  with pc assms show ?thesis by (simp add: parent_def)
next
  case False
  then have r: "2 * i + 2 < length xs" using assms by simp
  let ?l = "2 * i + 1" and ?r = "2 * i + 2"
  define c where "c = (if mx \<and> level (xs ! ?l) < level (xs ! ?r) then ?r
                       else if \<not> mx \<and> level (xs ! ?r) < level (xs ! ?l) then ?r else ?l)"
  have pc: "pick_child xs ?l mx = Inr c"
    using assms r False by (simp add: pick_child_def at_def player_lt_def c_def)
  have c: "c = ?l \<or> c = ?r" by (simp add: c_def)
  have ord: "heap_ord mx (xs ! c) (xs ! ?l)" "heap_ord mx (xs ! c) (xs ! ?r)"
    by (simp_all add: c_def heap_ord_def)
  have "heap_ord mx (xs ! c) (xs ! d)" if "0 < d" "parent d = i" for d
  proof -
    from that have "d = ?l \<or> d = ?r" by (simp add: parent_eq_iff)
    with ord show ?thesis by metis
  qed
  moreover have "c < length xs" "parent c = i" "0 < c"
    using c r by (auto simp: parent_def)
  ultimately show ?thesis using pc by simp
qed

text \<open>
  The loop invariant of the percolation: position \<open>i\<close> holds \<open>temp\<close>, every other node is in
  heap order with its children, and the parent of \<open>i\<close> is in heap order with the children
  of \<open>i\<close>. Then the loop ends in a heap that is a permutation of the range, and every read
  and swap stayed inside the range.
\<close>

lemma percolateDown_loop_heap:
  assumes "i < length xs" "xs ! i = temp" "heap_except mx xs i" "bridged mx xs i"
  shows "\<exists>ys. percolateDown_loop xs i temp mx = Inr ys \<and> is_heap mx ys \<and>
              mset ys = mset xs \<and> length ys = length xs"
  using assms
proof (induction xs i temp mx rule: percolateDown_loop.induct)
  case (1 xs i temp mx)
  note he = \<open>heap_except mx xs i\<close>[unfolded heap_except_iff, rule_format]
  note br = \<open>bridged mx xs i\<close>[unfolded bridged_iff, rule_format]
  show ?case
  proof (cases "2 * i + 1 < length xs")
    case False
    have "is_heap mx xs"
      unfolding is_heap_iff
    proof (intro allI impI)
      fix c assume c: "0 < c \<and> c < length xs"
      then have "parent c \<noteq> i" using False by (auto simp: parent_eq_iff)
      with c show "heap_ord mx (xs ! parent c) (xs ! c)" using he by blast
    qed
    with False show ?thesis by (subst percolateDown_loop.simps) simp
  next
    case True
    from pick_child_spec[OF True, of mx] obtain c where
      pc: "pick_child xs (2 * i + 1) mx = Inr c" and cl: "c < length xs" and
      par: "parent c = i" and c0: "0 < c" and
      best: "\<And>d. 0 < d \<Longrightarrow> d < length xs \<Longrightarrow> parent d = i \<Longrightarrow> heap_ord mx (xs ! c) (xs ! d)"
      by blast
    have atc: "at xs c = Inr (xs ! c)" using cl by (simp add: at_def)
    have ic: "i < c" using parent_less[OF c0] par by simp
    show ?thesis
    proof (cases "(mx \<and> player_gt (xs ! c) temp) \<or> (\<not> mx \<and> player_lt (xs ! c) temp)")
      case False
      then have top: "heap_ord mx temp (xs ! c)"
        by (auto simp: heap_ord_def player_gt_def player_lt_def)
      have "is_heap mx xs"
        unfolding is_heap_iff
      proof (intro allI impI)
        fix d assume d: "0 < d \<and> d < length xs"
        show "heap_ord mx (xs ! parent d) (xs ! d)"
        proof (cases "parent d = i")
          case True
          with d best have "heap_ord mx (xs ! c) (xs ! d)" by blast
          with top True \<open>xs ! i = temp\<close> show ?thesis
            by (auto simp: heap_ord_def split: if_splits)
        next
          case False
          with d he show ?thesis by blast
        qed
      qed
      moreover have "percolateDown_loop xs i temp mx = Inr xs"
        using True pc atc False by (subst percolateDown_loop.simps) auto
      ultimately show ?thesis by simp
    next
      case swap: True
      define xs' where "xs' = xs[i := xs ! c, c := xs ! i]"
      have sw: "iter_swap xs i c = Inr xs'"
        using cl \<open>i < length xs\<close> by (simp add: iter_swap_def xs'_def)
      have len: "length xs' = length xs" by (simp add: xs'_def)
      have nth_i: "xs' ! i = xs ! c" using ic cl \<open>i < length xs\<close> by (simp add: xs'_def)
      have nth_c: "xs' ! c = temp" using cl \<open>xs ! i = temp\<close> by (simp add: xs'_def)
      have nth_o: "\<And>k. k \<noteq> i \<Longrightarrow> k \<noteq> c \<Longrightarrow> xs' ! k = xs ! k" by (simp add: xs'_def)
      have down: "heap_ord mx (xs ! c) temp"
        using swap by (auto simp: heap_ord_def player_gt_def player_lt_def)
      have he': "heap_except mx xs' c"
        unfolding heap_except_iff
      proof (intro allI impI)
        fix d assume d: "0 < d \<and> d < length xs' \<and> parent d \<noteq> c"
        then have dl: "d < length xs" and d0: "0 < d" using len by auto
        have pdd: "parent d < d" using parent_less d0 by simp
        show "heap_ord mx (xs' ! parent d) (xs' ! d)"
        proof (cases "parent d = i")
          case True
          show ?thesis
          proof (cases "d = c")
            case True
            with par nth_i nth_c down show ?thesis by simp
          next
            case False
            then have "xs' ! d = xs ! d" using nth_o pdd True by auto
            with best[OF d0 dl True] True nth_i show ?thesis by simp
          qed
        next
          case npi: False
          show ?thesis
          proof (cases "d = i")
            case True
            then have i0: "0 < i" using d0 by simp
            have "parent i \<noteq> c" "parent i \<noteq> i" using parent_less[OF i0] ic by auto
            then have "xs' ! parent i = xs ! parent i" using nth_o by simp
            moreover have "heap_ord mx (xs ! parent i) (xs ! c)"
              using br[OF i0] c0 cl par by blast
            ultimately show ?thesis using True nth_i by simp
          next
            case False
            have "d \<noteq> c" using par npi by auto
            then have "xs' ! d = xs ! d" using False nth_o by simp
            moreover have "xs' ! parent d = xs ! parent d" using npi d nth_o by simp
            moreover have "heap_ord mx (xs ! parent d) (xs ! d)" using he d0 dl npi by blast
            ultimately show ?thesis by simp
          qed
        qed
      qed
      have br': "bridged mx xs' c"
        unfolding bridged_iff
      proof (intro allI impI)
        fix d assume d: "0 < d \<and> d < length xs' \<and> parent d = c"
        then have dl: "d < length xs" and d0: "0 < d" using len by auto
        have "c < d" using parent_less[OF d0] d by simp
        then have "xs' ! d = xs ! d" using nth_o ic by simp
        moreover have "heap_ord mx (xs ! c) (xs ! d)"
          using he d0 dl d ic by (metis less_irrefl)
        ultimately show "heap_ord mx (xs' ! parent c) (xs' ! d)" using par nth_i by simp
      qed
      have pre: "c < length xs'" using cl len by simp
      have "\<exists>ys. percolateDown_loop xs' c temp mx = Inr ys \<and> is_heap mx ys \<and>
              mset ys = mset xs' \<and> length ys = length xs'"
      proof (cases mx)
        case True
        with swap have "mx \<and> player_gt (xs ! c) temp" by simp
        from "1.IH"(1)[OF \<open>2 * i + 1 < length xs\<close> pc atc this sw pre nth_c he' br']
        show ?thesis .
      next
        case False
        with swap have s: "\<not> mx \<and> player_lt (xs ! c) temp" by simp
        then have n: "\<not> (mx \<and> player_gt (xs ! c) temp)" by simp
        from "1.IH"(2)[OF \<open>2 * i + 1 < length xs\<close> pc atc n s sw pre nth_c he' br']
        show ?thesis .
      qed
      moreover have "percolateDown_loop xs i temp mx = percolateDown_loop xs' c temp mx"
        using True pc atc sw swap by (subst percolateDown_loop.simps) auto
      moreover have "mset xs' = mset xs"
        unfolding xs'_def using cl \<open>i < length xs\<close> by (simp add: mset_swap)
      ultimately show ?thesis using len by auto
    qed
  qed
qed

lemma percolateDown_heap:
  assumes "root < length xs" and "heap_except mx xs root" and "bridged mx xs root"
  shows "\<exists>ys. percolateDown root xs mx = Inr ys \<and> is_heap mx ys \<and>
              mset ys = mset xs \<and> length ys = length xs"
  using percolateDown_loop_heap[OF assms(1) refl assms(2) assms(3)] assms(1)
  by (simp add: percolateDown_def at_def)

section \<open>Properties of the online ranker\<close>

lemma streamed_empty: "remaining S s = 0 \<Longrightarrow> streamed S s = []"
  by (simp add: streamed_def)

lemma streamed_step:
  assumes "pull_contract S" "remaining S s > 0"
  shows "\<exists>p s'. nextPlayer S s = Inr (p, s') \<and> remaining S s' + 1 = remaining S s \<and>
           streamed S s = p # streamed S s'"
proof -
  from assms obtain p s' where n: "nextPlayer S s = Inr (p, s')"
    and r: "remaining S s' + 1 = remaining S s"
    unfolding pull_contract_def by blast
  from r have "remaining S s = Suc (remaining S s')" by simp
  then have "streamed S s = p # streamed S s'"
    using n by (simp add: streamed_def)
  with n r show ?thesis by blast
qed

lemma length_streamed: "pull_contract S \<Longrightarrow> length (streamed S s) = remaining S s"
proof (induction "remaining S s" arbitrary: s)
  case 0
  then show ?case by (simp add: streamed_def)
next
  case (Suc n)
  then have "remaining S s > 0" by simp
  from streamed_step[OF Suc.prems this] obtain p s' where
    "remaining S s' + 1 = remaining S s" "streamed S s = p # streamed S s'" by blast
  with Suc show ?case by simp
qed

lemma is_topk_all: "is_topk M M"
  by (simp add: is_topk_def)

lemma is_topk_sorted:
  assumes "sorted ts" "is_topk (mset ts) (mset ks)"
  shows "ts = largest (length ts) ks"
proof -
  define rest where "rest = sorted_list_of_multiset (mset ks - mset ts)"
  have sub: "mset ts \<subseteq># mset ks" using assms(2) by (simp add: is_topk_def)
  have m: "mset (rest @ ts) = mset ks"
    using sub by (simp add: rest_def)
  have "\<forall>b\<in>set rest. \<forall>a\<in>set ts. b \<le> a"
    using assms(2) by (auto simp: is_topk_def rest_def)
  then have "sorted (rest @ ts)"
    using assms(1) by (simp add: sorted_append rest_def)
  with m have s: "sort ks = rest @ ts"
    by (metis properties_for_sort)
  have "length ks = length rest + length ts"
    using m by (metis length_append size_mset)
  then show ?thesis by (simp add: largest_def s)
qed

lemma is_topk_replace:
  assumes "is_topk T M" "m \<in># T" "\<forall>a\<in>#T. m \<le> a" "m \<le> x"
  shows "is_topk (T - {#m#} + {#x#}) (M + {#x#})"
proof -
  have sub: "T \<subseteq># M" using assms(1) by (simp add: is_topk_def)
  have low: "\<forall>b\<in>#(M - T). b \<le> m" using assms(1,2) by (auto simp: is_topk_def)
  have d: "(M + {#x#}) - (T - {#m#} + {#x#}) = (M - T) + {#m#}"
    using sub assms(2)
    by (auto simp: multiset_eq_iff subseteq_mset_def dest: spec[where x = m])
  have s: "T - {#m#} + {#x#} \<subseteq># M + {#x#}"
    using sub by (meson diff_subset_eq_self subset_mset.add_mono subset_mset.order_refl subset_mset.order_trans)
  have up: "\<forall>a\<in>#(T - {#m#} + {#x#}). m \<le> a"
    using assms(3,4) by (auto dest: in_diffD)
  show ?thesis
    unfolding is_topk_def d using s up low by fastforce
qed

lemma is_topk_discard:
  assumes "is_topk T M" "\<forall>a\<in>#T. x \<le> a"
  shows "is_topk T (M + {#x#})"
proof -
  have sub: "T \<subseteq># M" using assms(1) by (simp add: is_topk_def)
  then have d: "(M + {#x#}) - T = (M - T) + {#x#}"
    by (simp add: multiset_eq_iff subseteq_mset_def Suc_diff_le)
  have "T \<subseteq># M + {#x#}" using sub by (auto simp: subseteq_mset_def intro: le_SucI)
  moreover have "\<forall>a\<in>#T. \<forall>b\<in>#(M - T). b \<le> a"
    using assms(1) by (simp add: is_topk_def)
  ultimately show ?thesis
    unfolding is_topk_def d using assms(2) by auto
qed

lemma heap_root:
  assumes "is_heap mx xs" "i < length xs"
  shows "heap_ord mx (xs ! 0) (xs ! i)"
  using assms(2)
proof (induction i rule: less_induct)
  case (less i)
  show ?case
  proof (cases "i = 0")
    case True
    then show ?thesis by (simp add: heap_ord_def)
  next
    case False
    then have i0: "0 < i" by simp
    have p: "parent i < i" using i0 by (simp add: parent_def)
    have "heap_ord mx (xs ! parent i) (xs ! i)"
      using assms(1) i0 less.prems by (simp add: is_heap_iff)
    moreover have "heap_ord mx (xs ! 0) (xs ! parent i)"
      using less.IH[OF p] p less.prems by simp
    ultimately show ?thesis by (auto simp: heap_ord_def split: if_splits)
  qed
qed

lemma cs_ok_empty: "cs_ok Map.empty read m"
  by (simp add: cs_ok_def cutoffs_mono_def)

lemma cs_ok_mono: "cs_ok cs read m \<Longrightarrow> m \<le> m' \<Longrightarrow> cs_ok cs (read + 1) m'"
  by (fastforce simp: cs_ok_def)

lemma cs_ok_insert:
  assumes "cs_ok cs read m" "m \<le> m'"
  shows "cs_ok (cutoffs_insert cs (read + 1) m') (read + 1) m'"
proof -
  have none: "cs (read + 1) = None"
  proof (cases "cs (read + 1)")
    case (Some v)
    with assms(1) have "read + 1 \<le> read" unfolding cs_ok_def by blast
    then show ?thesis by simp
  qed simp
  then have eq: "cutoffs_insert cs (read + 1) m' = cs(read + 1 \<mapsto> m')"
    by (simp add: cutoffs_insert_def)
  show ?thesis
    unfolding eq cs_ok_def cutoffs_mono_def
    using assms by (auto simp: cs_ok_def cutoffs_mono_def split: if_splits) fastforce+
qed

lemma cs_ok_final:
  assumes "cs_ok cs read m"
  shows "cutoffs_mono (cutoffs_insert cs read m)"
proof (cases "cs read")
  case None
  then have eq: "cutoffs_insert cs read m = cs(read \<mapsto> m)"
    by (simp add: cutoffs_insert_def)
  show ?thesis
    unfolding eq cutoffs_mono_def
    using assms None by (auto simp: cs_ok_def cutoffs_mono_def split: if_splits) fastforce+
next
  case (Some a)
  then show ?thesis using assms by (simp add: cutoffs_insert_def cs_ok_def)
qed

lemma heap_min:
  assumes "is_heap False xs"
  shows "\<forall>a\<in>#mset (map level xs). level (xs ! 0) \<le> a"
proof -
  have "level (xs ! 0) \<le> level (xs ! i)" if "i < length xs" for i
    using heap_root[OF assms that] by (simp add: heap_ord_def)
  then show ?thesis by (auto simp: in_set_conv_nth)
qed

lemma replaceMin_heap:
  assumes "is_heap False mt" "mt \<noteq> []"
  shows "\<exists>ys. replaceMin mt p = Inr ys \<and> is_heap False ys \<and> length ys = length mt \<and>
           mset (map level ys) = mset (map level mt) - {#level (mt ! 0)#} + {#level p#}"
proof -
  have l: "0 < length (mt[0 := p])" using assms(2) by simp
  have he: "heap_except False (mt[0 := p]) 0"
    unfolding heap_except_iff
  proof (intro allI impI)
    fix c assume c: "0 < c \<and> c < length (mt[0 := p]) \<and> parent c \<noteq> 0"
    then have "heap_ord False (mt ! parent c) (mt ! c)"
      using assms(1) by (simp add: is_heap_iff)
    with c show "heap_ord False (mt[0 := p] ! parent c) (mt[0 := p] ! c)" by simp
  qed
  have br: "bridged False (mt[0 := p]) 0" by (simp add: bridged_def)
  from percolateDown_heap[OF l he br] obtain ys where
    ys: "percolateDown 0 (mt[0 := p]) False = Inr ys" "is_heap False ys"
        "mset ys = mset (mt[0 := p])" "length ys = length (mt[0 := p])" by blast
  have "mset (mt[0 := p]) = add_mset p (mset mt - {#mt ! 0#})"
    using assms(2) by (simp add: mset_update)
  then have "mset (map level ys) = image_mset level (add_mset p (mset mt - {#mt ! 0#}))"
    using ys(3) by (metis mset_map)
  also have "\<dots> = add_mset (level p) (image_mset level (mset mt) - {#level (mt ! 0)#})"
    using assms(2) by (simp add: image_mset_Diff)
  finally have "mset (map level ys) = mset (map level mt) - {#level (mt ! 0)#} + {#level p#}"
    by simp
  with ys assms(2) show ?thesis by (simp add: replaceMin_def)
qed

lemma conforming_make_heap_greater:
  "conforming L \<Longrightarrow> mset (make_heap_greater L xs) = mset xs \<and> is_heap False (make_heap_greater L xs)"
  by (simp add: conforming_def)

lemma conforming_sort:
  "conforming L \<Longrightarrow> mset (sort_less L xs) = mset xs \<and> sorted (map level (sort_less L xs))"
  by (simp add: conforming_def)

lemma rank_step_inv:
  assumes L: "conforming L" and r: "0 < r" and inv: "rank_inv r seen read mt cs"
  shows "\<exists>mt' cs'. rank_step L r (read + 1) p mt cs = Inr (mt', cs') \<and>
           rank_inv r (seen @ [p]) (read + 1) mt' cs'"
proof -
  have rd: "read = length seen" using inv by (simp add: rank_inv_def)
  consider (fill) "read + 1 < r" | (build) "read + 1 = r" | (full) "r \<le> read" by linarith
  then show ?thesis
  proof cases
    case fill
    then have "mt = seen" "cs = Map.empty" using inv by (simp_all add: rank_inv_def)
    moreover have "(read + 1) mod r \<noteq> 0" using fill by simp
    ultimately show ?thesis
      using fill r rd by (simp add: rank_step_def rank_inv_def)
  next
    case build
    then have s: "mt = seen" "cs = Map.empty" using inv by (simp_all add: rank_inv_def)
    define h where "h = make_heap_greater L (seen @ [p])"
    have h: "mset h = mset (seen @ [p])" "is_heap False h"
      using conforming_make_heap_greater[OF L] by (simp_all add: h_def)
    then have len: "length h = r" using build rd by (metis length_append_singleton mset_eq_length Suc_eq_plus1)
    then have ne: "h \<noteq> []" using r by auto
    have tk: "is_topk (mset (map level h)) (mset (map level (seen @ [p])))"
      using h(1) by (metis is_topk_all mset_map)
    have "rank_step L r (read + 1) p mt cs = Inr (h, cutoffs_insert Map.empty r (level (h ! 0)))"
      using build r ne s by (simp add: rank_step_def h_def[symmetric] at_def)
    moreover have "cs_ok (cutoffs_insert Map.empty (read + 1) (level (h ! 0))) (read + 1) (level (h ! 0))"
      by (rule cs_ok_insert[OF cs_ok_empty order_refl])
    ultimately show ?thesis
      using build rd len h(2) tk by (simp add: rank_inv_def)
  next
    case full
    then have i: "length mt = r" "is_heap False mt"
      "is_topk (mset (map level mt)) (mset (map level seen))" "cs_ok cs read (level (mt ! 0))"
      using inv by (auto simp: rank_inv_def)
    have ne: "mt \<noteq> []" using i(1) r by auto
    have front: "at mt 0 = Inr (mt ! 0)" using ne by (simp add: at_def)
    let ?m = "level (mt ! 0)"
    have min: "\<forall>a\<in>#mset (map level mt). ?m \<le> a" by (rule heap_min[OF i(2)])
    have mem: "?m \<in># mset (map level mt)" using ne by simp
    have "\<exists>mt'. (if ?m \<le> level p then replaceMin mt p else Inr mt) = Inr mt' \<and>
            length mt' = r \<and> is_heap False mt' \<and>
            is_topk (mset (map level mt')) (mset (map level (seen @ [p]))) \<and> ?m \<le> level (mt' ! 0)"
    proof (cases "?m \<le> level p")
      case True
      from replaceMin_heap[OF i(2) ne, of p] obtain ys where
        ys: "replaceMin mt p = Inr ys" "is_heap False ys" "length ys = length mt"
          "mset (map level ys) = mset (map level mt) - {#?m#} + {#level p#}" by blast
      have tk: "is_topk (mset (map level ys)) (mset (map level (seen @ [p])))"
        using is_topk_replace[OF i(3) mem min True] ys(4) by simp
      have "\<forall>a\<in>#mset (map level ys). ?m \<le> a"
      proof
        fix a assume "a \<in># mset (map level ys)"
        then have "a = level p \<or> a \<in># mset (map level mt) - {#?m#}"
          unfolding ys(4) by auto
        then have "a = level p \<or> a \<in># mset (map level mt)" by (blast dest: in_diffD)
        with min True show "?m \<le> a" by blast
      qed
      moreover have "level (ys ! 0) \<in># mset (map level ys)" using ys(3) ne by simp
      ultimately have "?m \<le> level (ys ! 0)" by blast
      with True ys tk i(1) show ?thesis by simp
    next
      case False
      then have "\<forall>a\<in>#mset (map level mt). level p \<le> a" using min by fastforce
      from is_topk_discard[OF i(3) this] False i show ?thesis by simp
    qed
    then obtain mt' where mt': "(if ?m \<le> level p then replaceMin mt p else Inr mt) = Inr mt'"
      "length mt' = r" "is_heap False mt'"
      "is_topk (mset (map level mt')) (mset (map level (seen @ [p])))" "?m \<le> level (mt' ! 0)"
      by blast
    have ne': "mt' \<noteq> []" using mt'(2) r by auto
    define cs' where "cs' = (if (read + 1) mod r = 0 then cutoffs_insert cs (read + 1) (level (mt' ! 0)) else cs)"
    have "rank_step L r (read + 1) p mt cs = Inr (mt', cs')"
      using full r front mt'(1) ne' by (simp add: rank_step_def cs'_def at_def)
    moreover have "cs_ok cs' (read + 1) (level (mt' ! 0))"
      using cs_ok_insert[OF i(4) mt'(5)] cs_ok_mono[OF i(4) mt'(5)] by (simp add: cs'_def)
    ultimately show ?thesis
      using full rd mt' by (simp add: rank_inv_def)
  qed
qed

lemma rank_steps_inv:
  assumes L: "conforming L" and r: "0 < r"
  shows "rank_inv r seen read mt cs \<Longrightarrow>
         \<exists>mt' cs'. rank_steps L r ps read mt cs = Inr (read + length ps, mt', cs') \<and>
           rank_inv r (seen @ ps) (read + length ps) mt' cs'"
proof (induction ps arbitrary: seen read mt cs)
  case Nil
  then show ?case by simp
next
  case (Cons p ps)
  from rank_step_inv[OF L r Cons.prems, of p] obtain mt1 cs1 where
    s: "rank_step L r (read + 1) p mt cs = Inr (mt1, cs1)"
    and i: "rank_inv r (seen @ [p]) (read + 1) mt1 cs1" by blast
  from Cons.IH[OF i] s show ?case by simp
qed

lemma rank_inv_init: "rank_inv r [] 0 [] Map.empty"
  by (simp add: rank_inv_def is_heap_def is_topk_def cs_ok_empty)

lemma rankIncoming_loop_steps_gen:
  assumes "pull_contract S" "remaining S' = remaining S"
    "\<forall>t. 0 < remaining S t \<longrightarrow> nextPlayer S' t = nextPlayer S t"
  shows "rankIncoming_loop S' L r s read mt cs = Some (rank_steps L r (streamed S s) read mt cs)"
proof (induction "remaining S s" arbitrary: s read mt cs)
  case 0
  then show ?case
    by (subst rankIncoming_loop.simps) (simp add: streamed_empty assms(2))
next
  case (Suc n)
  then have pos: "remaining S s > 0" by simp
  from streamed_step[OF assms(1) pos] obtain p s' where
    n: "nextPlayer S s = Inr (p, s')" and r: "remaining S s' + 1 = remaining S s"
    and st: "streamed S s = p # streamed S s'" by blast
  from r Suc(2) have "n = remaining S s'" by simp
  note IH = Suc(1)[OF this]
  have n': "nextPlayer S' s = Inr (p, s')" using assms(3) pos n by simp
  show ?case
    by (subst rankIncoming_loop.simps) (simp add: pos n' st IH assms(2) split: sum.splits prod.splits)
qed

lemma rankIncoming_steps:
  assumes "pull_contract S"
  shows "rankIncoming S L s r =
     Some (case rank_steps L r (streamed S s) 0 [] Map.empty of
        Inl e \<Rightarrow> Inl e
      | Inr (read, min_top, cs) \<Rightarrow>
          (case at min_top 0 of
             Inl e \<Rightarrow> Inl e
           | Inr m \<Rightarrow> Inr \<lparr>top_players = sort_less L min_top,
                          cutoffs = cutoffs_insert cs read (level m)\<rparr>))"
  using rankIncoming_loop_steps_gen[OF assms refl, of L r s 0 "[]" Map.empty]
  by (simp add: rankIncoming_def split: sum.splits prod.splits)

lemma rankIncoming_result:
  assumes L: "conforming L" and S: "pull_contract S" and r: "0 < r" and ne: "streamed S s \<noteq> []"
  shows "\<exists>mt cs. rankIncoming S L s r =
             Some (Inr \<lparr>top_players = sort_less L mt,
                        cutoffs = cutoffs_insert cs (length (streamed S s)) (level (mt ! 0))\<rparr>) \<and>
           mt \<noteq> [] \<and> rank_inv r (streamed S s) (length (streamed S s)) mt cs"
proof -
  let ?ps = "streamed S s"
  from rank_steps_inv[OF L r rank_inv_init, of ?ps] obtain mt cs where
    st: "rank_steps L r ?ps 0 [] Map.empty = Inr (length ?ps, mt, cs)"
    and inv: "rank_inv r ?ps (length ?ps) mt cs" by auto
  have "mt \<noteq> []"
  proof (cases "length ?ps < r")
    case True
    with inv have "mt = ?ps" by (simp add: rank_inv_def)
    with ne show ?thesis by simp
  next
    case False
    with inv have "length mt = r" by (simp add: rank_inv_def)
    with r show ?thesis by auto
  qed
  then have "rankIncoming S L s r =
             Some (Inr \<lparr>top_players = sort_less L mt,
                        cutoffs = cutoffs_insert cs (length ?ps) (level (mt ! 0))\<rparr>)"
    using st by (simp add: rankIncoming_steps[OF S] at_def)
  with \<open>mt \<noteq> []\<close> inv show ?thesis by blast
qed

lemma rank_inv_topk:
  assumes "rank_inv r seen read mt cs"
  shows "is_topk (mset (map level mt)) (mset (map level seen)) \<and> length mt = min r (length seen)"
  using assms by (cases "read < r") (auto simp: rank_inv_def is_topk_all)

lemma rank_inv_cutoffs:
  assumes "rank_inv r seen read mt cs"
  shows "cutoffs_mono (cutoffs_insert cs read (level (mt ! 0)))"
proof (cases "read < r")
  case True
  with assms have "cs = Map.empty" by (simp add: rank_inv_def)
  then show ?thesis using cs_ok_final[OF cs_ok_empty] by simp
next
  case False
  with assms have "cs_ok cs read (level (mt ! 0))" by (auto simp: rank_inv_def)
  then show ?thesis by (rule cs_ok_final)
qed

lemma sorted_keys_largest:
  assumes L: "conforming L" and tk: "is_topk (mset (map level mt)) (mset ks)"
  shows "map level (sort_less L mt) = largest (length mt) ks"
proof -
  have m: "mset (sort_less L mt) = mset mt" and s: "sorted (map level (sort_less L mt))"
    using conforming_sort[OF L] by simp_all
  from m have "mset (map level (sort_less L mt)) = mset (map level mt)" by (metis mset_map)
  with tk have "is_topk (mset (map level (sort_less L mt))) (mset ks)" by simp
  from is_topk_sorted[OF s this] show ?thesis
    using m by (metis length_map mset_eq_length)
qed

lemma vector_stream_contract: "pull_contract vector_stream"
  by (auto simp: pull_contract_def vector_stream_def VectorPlayerStream_remaining_def
      VectorPlayerStream_nextPlayer_def at_def Let_def)

lemma streamed_vector_drop:
  "streamed vector_stream \<lparr>stream_players = ps, current = c\<rparr> = drop c ps"
proof (induction "length ps - c" arbitrary: c)
  case 0
  then show ?case
    by (simp add: streamed_def vector_stream_def VectorPlayerStream_remaining_def)
next
  case (Suc n)
  then have c: "c < length ps" by simp
  from Suc(2) have n: "n = length ps - Suc c" by simp
  have IH: "streamed vector_stream \<lparr>stream_players = ps, current = Suc c\<rparr> = drop (Suc c) ps"
    by (rule Suc(1)[OF n])
  have "streamed vector_stream \<lparr>stream_players = ps, current = c\<rparr> =
          drain vector_stream (Suc n) \<lparr>stream_players = ps, current = c\<rparr>"
    using Suc(2) by (simp add: streamed_def vector_stream_def VectorPlayerStream_remaining_def)
  also have "\<dots> = ps ! c # drain vector_stream n \<lparr>stream_players = ps, current = Suc c\<rparr>"
    using c by (simp add: vector_stream_def VectorPlayerStream_remaining_def
        VectorPlayerStream_nextPlayer_def at_def Let_def)
  also have "drain vector_stream n \<lparr>stream_players = ps, current = Suc c\<rparr> =
          streamed vector_stream \<lparr>stream_players = ps, current = Suc c\<rparr>"
    using n by (simp add: streamed_def vector_stream_def VectorPlayerStream_remaining_def)
  finally show ?case using IH c by (simp add: Cons_nth_drop_Suc)
qed

lemma streamed_vector: "streamed vector_stream (VectorPlayerStream_init ps) = ps"
  by (simp add: VectorPlayerStream_init_def streamed_vector_drop)

lemma pick_child_error: "pick_child xs child mx = Inl e \<Longrightarrow> e = OutOfBounds"
  by (auto simp: pick_child_def at_def split: if_splits sum.splits)

lemma at_error: "at xs i = Inl e \<Longrightarrow> e = OutOfBounds"
  by (auto simp: at_def split: if_splits)

lemma iter_swap_error: "iter_swap xs i j = Inl e \<Longrightarrow> e = OutOfBounds"
  by (auto simp: iter_swap_def split: if_splits)

lemma percolateDown_loop_error:
  "percolateDown_loop xs i temp mx = Inl e \<Longrightarrow> e = OutOfBounds"
proof (induction xs i temp mx rule: percolateDown_loop.induct)
  case (1 xs i temp mx)
  note unf = percolateDown_loop.simps[of xs i temp mx]
  show ?case
  proof (cases "2 * i + 1 < length xs")
    case False
    with "1.prems" unf show ?thesis by simp
  next
    case True
    show ?thesis
    proof (cases "pick_child xs (2 * i + 1) mx")
      case (Inl e')
      with "1.prems" unf True show ?thesis by (simp add: pick_child_error)
    next
      case pc: (Inr child)
      show ?thesis
      proof (cases "at xs child")
        case (Inl e')
        with "1.prems" unf True pc show ?thesis by (simp add: at_error)
      next
        case atc: (Inr c)
        show ?thesis
        proof (cases "(mx \<and> player_gt c temp) \<or> (\<not> mx \<and> player_lt c temp)")
          case False
          with "1.prems" unf True pc atc show ?thesis by auto
        next
          case sw: True
          show ?thesis
          proof (cases "iter_swap xs i child")
            case (Inl e')
            with "1.prems" unf True pc atc sw show ?thesis by (auto simp: iter_swap_error)
          next
            case (Inr xs')
            with "1.prems" unf True pc atc sw
            have rec: "percolateDown_loop xs' child temp mx = Inl e" by auto
            show ?thesis
            proof (cases mx)
              case True
              with sw have "mx \<and> player_gt c temp" by simp
              from "1.IH"(1)[OF \<open>2 * i + 1 < length xs\<close> pc atc this Inr rec] show ?thesis .
            next
              case False
              with sw have s: "\<not> mx \<and> player_lt c temp" by simp
              then have n: "\<not> (mx \<and> player_gt c temp)" by simp
              from "1.IH"(2)[OF \<open>2 * i + 1 < length xs\<close> pc atc n s Inr rec] show ?thesis .
            qed
          qed
        qed
      qed
    qed
  qed
qed

lemma replaceMin_error: "replaceMin xs p = Inl e \<Longrightarrow> e = OutOfBounds"
  by (auto simp: replaceMin_def percolateDown_def split: if_splits sum.splits
      dest: percolateDown_loop_error at_error)

lemma rank_step_error: "rank_step L r read p mt cs = Inl e \<Longrightarrow> e \<noteq> ExhaustedSource"
  by (auto simp: rank_step_def at_def split: if_splits sum.splits dest: replaceMin_error)

lemma rank_steps_error: "rank_steps L r ps read mt cs = Inl e \<Longrightarrow> e \<noteq> ExhaustedSource"
proof (induction ps arbitrary: read mt cs)
  case Nil
  then show ?case by simp
next
  case (Cons p ps)
  then show ?case
    by (auto split: sum.splits dest: rank_step_error)
qed

lemma rankIncoming_error:
  assumes "pull_contract S"
  shows "rankIncoming S L s r \<noteq> Some (Inl ExhaustedSource)"
  using rank_steps_error[of L r "streamed S s" 0 "[]" Map.empty]
  by (auto simp: rankIncoming_steps[OF assms] at_def split: sum.splits prod.splits if_splits)

lemma rankIncoming_empty:
  assumes "pull_contract S" "streamed S s = []"
  shows "rankIncoming S L s r = Some (Inl OutOfBounds)"
  by (simp add: rankIncoming_steps[OF assms(1)] assms(2) at_def)

lemma rankIncoming_cutoffs_mono:
  assumes "conforming L" "pull_contract S" "0 < r" "rankIncoming S L s r = Some (Inr res)"
  shows "cutoffs_mono (cutoffs res)"
proof (cases "streamed S s = []")
  case True
  from rankIncoming_empty[OF assms(2) True] assms(4) show ?thesis by simp
next
  case False
  from rankIncoming_result[OF assms(1-3) False] obtain mt cs where
    "rankIncoming S L s r =
       Some (Inr \<lparr>top_players = sort_less L mt,
                  cutoffs = cutoffs_insert cs (length (streamed S s)) (level (mt ! 0))\<rparr>)"
    "rank_inv r (streamed S s) (length (streamed S s)) mt cs" by blast
  with assms(4) rank_inv_cutoffs show ?thesis by fastforce
qed

lemma sorted_is_min_heap:
  assumes "sorted (map level xs)"
  shows "is_heap False xs"
  unfolding is_heap_iff
proof (intro allI impI)
  fix c assume c: "0 < c \<and> c < length xs"
  then have "parent c \<le> c" using parent_less[of c] by simp
  with assms c have "map level xs ! parent c \<le> map level xs ! c"
    by (simp add: sorted_nth_mono del: nth_map)
  with c parent_less[of c] show "heap_ord False (xs ! parent c) (xs ! c)"
    by (simp add: heap_ord_def)
qed

lemma rev_sorted_is_max_heap:
  assumes "sorted (map level xs)"
  shows "is_heap True (rev xs)"
  unfolding is_heap_iff
proof (intro allI impI)
  fix c assume "0 < c \<and> c < length (rev xs)"
  then have c: "0 < c" "c < length xs" by simp_all
  let ?n = "length xs"
  have p: "parent c < c" using c parent_less by simp
  then have "?n - Suc c \<le> ?n - Suc (parent c)" by simp
  moreover have "?n - Suc (parent c) < ?n" using c by (simp add: diff_Suc_less)
  ultimately have "map level xs ! (?n - Suc c) \<le> map level xs ! (?n - Suc (parent c))"
    using assms by (simp add: sorted_nth_mono del: nth_map)
  with c p show "heap_ord True (rev xs ! parent c) (rev xs ! c)"
    by (simp add: heap_ord_def rev_nth)
qed

lemma ref_stdlib_conforming: "conforming ref_stdlib"
  by (auto simp: conforming_def ref_stdlib_def sorted_is_min_heap rev_sorted_is_max_heap)

lemma two_heap:
  assumes "mset h = {#a, b#}" "is_heap False h" "level a < level b"
  shows "h = [a, b]"
proof -
  from assms(1) have "length h = 2" by (metis size_mset size_add_mset size_empty numeral_2_eq_2)
  then obtain x y where h: "h = [x, y]"
    by (metis (no_types, opaque_lifting) Suc_length_conv length_0_conv numeral_2_eq_2)
  from assms(2) have "level x \<le> level y"
    by (simp add: h is_heap_def parent_def heap_ord_def upt_rec)
  moreover from assms(1) have "(x = a \<and> y = b) \<or> (x = b \<and> y = a)"
    by (auto simp: h add_eq_conv_ex)
  ultimately show ?thesis using assms(3) h by auto
qed

lemma sort_less_keys:
  assumes "conforming L"
  shows "map level (sort_less L xs) = sort (map level xs)"
proof -
  have "mset (map level (sort_less L xs)) = mset (map level xs)"
    using conforming_sort[OF assms, of xs] by (metis mset_map)
  then show ?thesis
    using conforming_sort[OF assms, of xs] by (metis properties_for_sort)
qed

section \<open>Properties of the offline selectors\<close>

subsection \<open>Selection by partition\<close>

lemma lomuto_loop_bounds:
  "lomuto_loop array high pivot i j = Inr (array', i') \<Longrightarrow> i \<le> j \<Longrightarrow> j \<le> high \<Longrightarrow>
     i \<le> i' \<and> i' \<le> high"
proof (induction array high pivot i j rule: lomuto_loop.induct)
  case (1 array high pivot i j)
  note unf = lomuto_loop.simps[of array high pivot i j]
  show ?case
  proof (cases "j < high")
    case False
    with "1.prems" unf show ?thesis by simp
  next
    case True
    from "1.prems"(1) unf True obtain aj ap where
      a: "at_int array j = Inr aj" "at_int array pivot = Inr ap"
      by (auto split: sum.splits)
    show ?thesis
    proof (cases "player_gt aj ap")
      case False
      with "1.prems" unf True a
      have "lomuto_loop array high pivot i (j + 1) = Inr (array', i')" by simp
      from "1.IH"(2)[OF True a False this] "1.prems" True show ?thesis by simp
    next
      case gt: True
      with "1.prems"(1) unf True a obtain array1 where
        s: "swap_int array i j = Inr array1"
        and r: "lomuto_loop array1 high pivot (i + 1) (j + 1) = Inr (array', i')"
        by (auto split: sum.splits)
      from "1.IH"(1)[OF True a gt s r] "1.prems" True show ?thesis by simp
    qed
  qed
qed

lemma lomuto_partition_bounds:
  "lomuto_partition array low high pivot = Inr (array', index) \<Longrightarrow> low \<le> high \<Longrightarrow>
     low \<le> index \<and> index \<le> high"
  by (auto simp: lomuto_partition_def split: sum.splits dest: lomuto_loop_bounds)

termination quickSelect
proof (relation "measure (\<lambda>(array, low, high, k). nat (high - low + 1))", goal_cases)
  case 1
  show ?case by simp
next
  case (2 array low high k x2 array' index)
  then show ?case using lomuto_partition_bounds[of array low high high array' index] by auto
next
  case (3 array low high k x2 array' index)
  then show ?case using lomuto_partition_bounds[of array low high high array' index] by auto
qed

declare quickSelect.simps [simp del]

lemma hoare_scan_left_spec:
  "hoare_scan_left a pvl high i = Inr i' \<Longrightarrow>
     i < i' \<and> 0 \<le> i' \<and> i' < int (length a) \<and>
     (\<forall>k. i < k \<and> k < i' \<longrightarrow> level (a ! nat k) < level pvl) \<and>
     (i' \<le> high \<longrightarrow> level pvl \<le> level (a ! nat i')) \<and>
     (i \<le> high \<longrightarrow> i' \<le> high + 1)"
proof (induction a pvl high i rule: hoare_scan_left.induct)
  case (1 a pvl high i)
  note unf = hoare_scan_left.simps[of a pvl high i]
  from "1.prems" unf obtain v where v: "at_int a (i + 1) = Inr v"
    by (auto simp: Let_def split: sum.splits)
  then have r: "0 \<le> i + 1" "i + 1 < int (length a)" and vv: "v = a ! nat (i + 1)"
    by (auto simp: at_int_def split: if_splits)
  show ?case
  proof (cases "player_lt v pvl \<and> i + 1 \<le> high")
    case False
    with "1.prems" unf v have "i' = i + 1" by (auto simp: Let_def split: if_splits)
    with False r vv show ?thesis by (auto simp: player_lt_def)
  next
    case True
    with "1.prems" unf v have rec: "hoare_scan_left a pvl high (i + 1) = Inr i'"
      by (auto simp: Let_def split: if_splits)
    from "1.IH"[OF refl v True rec] have IH:
      "i + 1 < i'" "0 \<le> i'" "i' < int (length a)"
      "\<forall>k. i + 1 < k \<and> k < i' \<longrightarrow> level (a ! nat k) < level pvl"
      "i' \<le> high \<longrightarrow> level pvl \<le> level (a ! nat i')"
      "i + 1 \<le> high \<longrightarrow> i' \<le> high + 1" by auto
    have "level (a ! nat k) < level pvl" if "i < k" "k < i'" for k
    proof (cases "k = i + 1")
      case True
      with \<open>player_lt v pvl \<and> i + 1 \<le> high\<close> vv show ?thesis by (simp add: player_lt_def)
    next
      case False
      with that IH(4) show ?thesis by simp
    qed
    with IH True show ?thesis by auto
  qed
qed

lemma hoare_scan_right_spec:
  "hoare_scan_right a pvl low j = Inr j' \<Longrightarrow>
     j' < j \<and> 0 \<le> j' \<and> j' < int (length a) \<and>
     (\<forall>k. j' < k \<and> k < j \<longrightarrow> level pvl < level (a ! nat k)) \<and>
     (low \<le> j' \<longrightarrow> level (a ! nat j') \<le> level pvl) \<and>
     (low \<le> j \<longrightarrow> low - 1 \<le> j')"
proof (induction a pvl low j rule: hoare_scan_right.induct)
  case (1 a pvl low j)
  note unf = hoare_scan_right.simps[of a pvl low j]
  from "1.prems" unf obtain v where v: "at_int a (j - 1) = Inr v"
    by (auto simp: Let_def split: sum.splits)
  then have r: "0 \<le> j - 1" "j - 1 < int (length a)" and vv: "v = a ! nat (j - 1)"
    by (auto simp: at_int_def split: if_splits)
  show ?case
  proof (cases "player_gt v pvl \<and> j - 1 \<ge> low")
    case False
    with "1.prems" unf v have "j' = j - 1" by (auto simp: Let_def split: if_splits)
    with False r vv show ?thesis by (auto simp: player_gt_def)
  next
    case True
    with "1.prems" unf v have rec: "hoare_scan_right a pvl low (j - 1) = Inr j'"
      by (auto simp: Let_def split: if_splits)
    from "1.IH"[OF refl v True rec] have IH:
      "j' < j - 1" "0 \<le> j'" "j' < int (length a)"
      "\<forall>k. j' < k \<and> k < j - 1 \<longrightarrow> level pvl < level (a ! nat k)"
      "low \<le> j' \<longrightarrow> level (a ! nat j') \<le> level pvl"
      "low \<le> j - 1 \<longrightarrow> low - 1 \<le> j'" by auto
    have "level pvl < level (a ! nat k)" if "j' < k" "k < j" for k
    proof (cases "k = j - 1")
      case True
      with \<open>player_gt v pvl \<and> j - 1 \<ge> low\<close> vv show ?thesis by (simp add: player_gt_def)
    next
      case False
      with that IH(4) show ?thesis by simp
    qed
    with IH True show ?thesis by auto
  qed
qed

termination hoare_loop
proof (relation "measure (\<lambda>(array, pivot_value, low, high, i, j). nat (j - i))", goal_cases)
  case 1
  show ?case by simp
next
  case (2 array pivot_value low high i j i' j' array')
  then show ?case
    using hoare_scan_left_spec[of array pivot_value high i i']
      hoare_scan_right_spec[of array pivot_value low j j'] by auto
qed

declare hoare_loop.simps [simp del]

lemma range_perm_refl: "range_perm a a low high"
  unfolding range_perm_def by blast

lemma range_perm_trans:
  assumes "range_perm a b low high" "range_perm b c low high"
  shows "range_perm a c low high"
  using assms unfolding range_perm_def by (auto; metis)

lemma range_perm_length: "range_perm a a' low high \<Longrightarrow> length a' = length a"
  by (simp add: range_perm_def)

lemma range_perm_mset: "range_perm a a' low high \<Longrightarrow> mset a' = mset a"
  by (simp add: range_perm_def)

lemma range_perm_outside:
  "range_perm a a' low high \<Longrightarrow> 0 \<le> k \<Longrightarrow> k < int (length a) \<Longrightarrow> k < low \<or> high < k \<Longrightarrow>
     a' ! nat k = a ! nat k"
  by (simp add: range_perm_def)

lemma range_perm_pred:
  assumes "range_perm a a' low high" "\<forall>k. low \<le> k \<and> k \<le> high \<longrightarrow> P (a ! nat k)"
    "low \<le> k" "k \<le> high"
  shows "P (a' ! nat k)"
  using assms unfolding range_perm_def by metis

lemma range_perm_widen:
  assumes "range_perm a a' l' h'" "l \<le> l'" "h' \<le> h" "0 \<le> l" "h < int (length a)"
  shows "range_perm a a' l h"
  unfolding range_perm_def
proof (intro conjI allI impI)
  show "length a' = length a" "mset a' = mset a"
    using assms(1) by (simp_all add: range_perm_def)
next
  fix k assume "0 \<le> k \<and> k < int (length a) \<and> (k < l \<or> h < k)"
  then show "a' ! nat k = a ! nat k"
    using assms(1-3) by (auto simp: range_perm_def)
next
  fix k assume k: "l \<le> k \<and> k \<le> h"
  show "\<exists>k'. l \<le> k' \<and> k' \<le> h \<and> a' ! nat k = a ! nat k'"
  proof (cases "l' \<le> k \<and> k \<le> h'")
    case True
    then obtain k' where "l' \<le> k'" "k' \<le> h'" "a' ! nat k = a ! nat k'"
      using assms(1) unfolding range_perm_def by blast
    with assms(2,3) show ?thesis by (intro exI[of _ k']) auto
  next
    case False
    then have "a' ! nat k = a ! nat k"
      using assms(1,4,5) k by (intro range_perm_outside[OF assms(1)]) auto
    with k show ?thesis by blast
  qed
qed

lemma swap_int_range_perm:
  assumes "0 \<le> low" "high < int (length a)" "low \<le> i" "i \<le> high" "low \<le> j" "j \<le> high"
  shows "swap_int a i j = Inr (a[nat i := a ! nat j, nat j := a ! nat i]) \<and>
         range_perm a (a[nat i := a ! nat j, nat j := a ! nat i]) low high"
proof -
  let ?a' = "a[nat i := a ! nat j, nat j := a ! nat i]"
  have b: "nat i < length a" "nat j < length a" using assms by auto
  have s: "swap_int a i j = Inr ?a'" using assms by (simp add: swap_int_def)
  have m: "mset ?a' = mset a" using b by (simp add: mset_swap)
  have o: "?a' ! nat k = a ! nat k" if "0 \<le> k" "k \<noteq> i" "k \<noteq> j" for k
    using that assms by (simp add: nat_eq_iff)
  have ni: "?a' ! nat i = a ! nat j"
  proof (cases "i = j")
    case True
    with b show ?thesis by simp
  next
    case False
    with assms have "nat i \<noteq> nat j" by auto
    with b show ?thesis by simp
  qed
  have nj: "?a' ! nat j = a ! nat i" using b by simp
  have "\<exists>k'. low \<le> k' \<and> k' \<le> high \<and> ?a' ! nat k = a ! nat k'" if "low \<le> k" "k \<le> high" for k
  proof -
    consider "k = i" | "k = j" | "k \<noteq> i" "k \<noteq> j" by blast
    then show ?thesis
    proof cases
      case 1 with ni assms show ?thesis by blast
    next
      case 2 with nj assms show ?thesis by blast
    next
      case 3 with o[of k] that assms(1) show ?thesis by (intro exI[of _ k]) auto
    qed
  qed
  moreover have "?a' ! nat k = a ! nat k" if "0 \<le> k" "k < low \<or> high < k" for k
    using o[of k] that assms by auto
  ultimately have "range_perm a ?a' low high"
    unfolding range_perm_def using m by auto
  with s show ?thesis by simp
qed

lemma swap_nth_int:
  assumes "0 \<le> i" "i < int (length a)" "0 \<le> j" "j < int (length a)"
  shows "a[nat i := a ! nat j, nat j := a ! nat i] ! nat i = a ! nat j"
    and "a[nat i := a ! nat j, nat j := a ! nat i] ! nat j = a ! nat i"
    and "0 \<le> k \<Longrightarrow> k \<noteq> i \<Longrightarrow> k \<noteq> j \<Longrightarrow>
           a[nat i := a ! nat j, nat j := a ! nat i] ! nat k = a ! nat k"
proof -
  have b: "nat i < length a" "nat j < length a" using assms by auto
  show "a[nat i := a ! nat j, nat j := a ! nat i] ! nat i = a ! nat j"
  proof (cases "i = j")
    case True
    with b show ?thesis by simp
  next
    case False
    with assms have "nat i \<noteq> nat j" by auto
    with b show ?thesis by simp
  qed
  show "a[nat i := a ! nat j, nat j := a ! nat i] ! nat j = a ! nat i"
    using b by simp
  show "a[nat i := a ! nat j, nat j := a ! nat i] ! nat k = a ! nat k"
    if "0 \<le> k" "k \<noteq> i" "k \<noteq> j"
    using that assms by (simp add: nat_eq_iff)
qed

lemma hoare_step:
  assumes inv: "hoare_inv a (level pvl) low high i j"
    and lo: "0 \<le> low" and hi: "high < int (length a)"
    and sl: "hoare_scan_left a pvl high i = Inr i'"
    and sr: "hoare_scan_right a pvl low j = Inr j'"
  shows "low \<le> j' \<and> j' \<le> high \<and> low \<le> i' \<and>
         (j' < i' \<longrightarrow> j' < high \<and>
            (\<forall>k. low \<le> k \<and> k \<le> j' \<longrightarrow> level (a ! nat k) \<le> level pvl) \<and>
            (\<forall>k. j' < k \<and> k \<le> high \<longrightarrow> level pvl \<le> level (a ! nat k))) \<and>
         (i' \<le> j' \<longrightarrow>
            (\<exists>a1. swap_int a i' j' = Inr a1 \<and> hoare_inv a1 (level pvl) low high i' j' \<and>
                  range_perm a a1 low high))"
proof -
  let ?pv = "level pvl"
  from hoare_scan_left_spec[OF sl] have L:
    "i < i'" "\<And>k. i < k \<Longrightarrow> k < i' \<Longrightarrow> level (a ! nat k) < ?pv"
    "i' \<le> high \<Longrightarrow> ?pv \<le> level (a ! nat i')" "i \<le> high \<Longrightarrow> i' \<le> high + 1" by auto
  from hoare_scan_right_spec[OF sr] have R:
    "j' < j" "\<And>k. j' < k \<Longrightarrow> k < j \<Longrightarrow> ?pv < level (a ! nat k)"
    "low \<le> j' \<Longrightarrow> level (a ! nat j') \<le> ?pv" "low \<le> j \<Longrightarrow> low - 1 \<le> j'" by auto
  from inv consider
    (first) "i = low - 1" "j = high + 1" "level (a ! nat high) = ?pv" "low < high"
  | (later) "low \<le> i" "i \<le> j" "j \<le> high"
      "\<And>k. low \<le> k \<Longrightarrow> k \<le> i \<Longrightarrow> level (a ! nat k) \<le> ?pv"
      "\<And>k. j \<le> k \<Longrightarrow> k \<le> high \<Longrightarrow> ?pv \<le> level (a ! nat k)"
      "\<exists>s. low \<le> s \<and> s < j \<and> level (a ! nat s) \<le> ?pv"
    unfolding hoare_inv_def by blast
  then show ?thesis
  proof cases
    case first
    have i'h: "i' \<le> high"
    proof (rule ccontr)
      assume "\<not> i' \<le> high"
      then have "level (a ! nat high) < ?pv" using L(2)[of high] first by simp
      with first(3) show False by simp
    qed
    have j'h: "j' = high"
    proof (rule ccontr)
      assume "j' \<noteq> high"
      then have "?pv < level (a ! nat high)" using R(1) R(2)[of high] first by simp
      with first(3) show False by simp
    qed
    have i'l: "low \<le> i'" using L(1) first by simp
    from swap_int_range_perm[OF lo hi i'l i'h _ order_refl] first j'h
    obtain a1 where a1: "a1 = a[nat i' := a ! nat j', nat j' := a ! nat i']"
      "swap_int a i' j' = Inr a1" "range_perm a a1 low high" by auto
    have b: "0 \<le> i'" "i' < int (length a)" "0 \<le> j'" "j' < int (length a)"
      using i'h hi j'h lo i'l by auto
    note sn = swap_nth_int[OF b, folded a1(1)]
    have n_i: "a1 ! nat i' = a ! nat j'" by (rule sn(1))
    have n_j: "a1 ! nat j' = a ! nat i'" by (rule sn(2))
    have n_o: "a1 ! nat k = a ! nat k" if "0 \<le> k" "k \<noteq> i'" "k \<noteq> j'" for k
      using that by (rule sn(3))
    have I2: "level (a1 ! nat k) \<le> ?pv" if "low \<le> k" "k \<le> i'" for k
    proof (cases "k = i'")
      case True
      with n_i j'h first(3) show ?thesis by simp
    next
      case False
      with that have "k < i'" by simp
      then have "level (a ! nat k) < ?pv" using L(2)[of k] that first by simp
      moreover have "a1 ! nat k = a ! nat k" using n_o[of k] that lo \<open>k < i'\<close> i'h j'h by simp
      ultimately show ?thesis by simp
    qed
    have I3: "?pv \<le> level (a1 ! nat k)" if "j' \<le> k" "k \<le> high" for k
      using that j'h n_j L(3)[OF i'h] by simp
    have S: "\<exists>s. low \<le> s \<and> s < j' \<and> level (a1 ! nat s) \<le> ?pv"
    proof (cases "i' < j'")
      case True
      with I2[of i'] i'l show ?thesis by auto
    next
      case False
      then have e: "i' = high" using i'h j'h by simp
      have "level (a1 ! nat low) \<le> ?pv" using I2[of low] i'l by simp
      with first(4) j'h show ?thesis by (intro exI[of _ low]) simp
    qed
    have "hoare_inv a1 ?pv low high i' j'"
      unfolding hoare_inv_def using i'l i'h j'h I2 I3 S by auto
    with a1 i'l i'h j'h first(4) show ?thesis by auto
  next
    case later
    from later(6) obtain s where s: "low \<le> s" "s < j" "level (a ! nat s) \<le> ?pv" by blast
    have sj': "s \<le> j'"
    proof (rule ccontr)
      assume "\<not> s \<le> j'"
      then have "?pv < level (a ! nat s)" using R(2)[of s] s by simp
      with s(3) show False by simp
    qed
    then have j'l: "low \<le> j'" using s by simp
    have j'h: "j' < high" using R(1) later(3) by simp
    have i'l: "low \<le> i'" using L(1) later(1) by simp
    have post: "(\<forall>k. low \<le> k \<and> k \<le> j' \<longrightarrow> level (a ! nat k) \<le> ?pv) \<and>
            (\<forall>k. j' < k \<and> k \<le> high \<longrightarrow> ?pv \<le> level (a ! nat k))" if c: "j' < i'"
    proof (intro conjI allI impI)
      fix k assume k: "low \<le> k \<and> k \<le> j'"
      show "level (a ! nat k) \<le> ?pv"
      proof (cases "k \<le> i")
        case True with later(4) k show ?thesis by simp
      next
        case False
        with L(2)[of k] k c show ?thesis by simp
      qed
    next
      fix k assume k: "j' < k \<and> k \<le> high"
      show "?pv \<le> level (a ! nat k)"
      proof (cases "j \<le> k")
        case True with later(5) k show ?thesis by simp
      next
        case False
        with R(2)[of k] k show ?thesis by simp
      qed
    qed
    have sw: "\<exists>a1. swap_int a i' j' = Inr a1 \<and> hoare_inv a1 ?pv low high i' j' \<and>
                  range_perm a a1 low high" if c: "i' \<le> j'"
    proof -
      have i'h: "i' \<le> high" using c j'h by simp
      from swap_int_range_perm[OF lo hi i'l i'h j'l] j'h
      obtain a1 where a1: "a1 = a[nat i' := a ! nat j', nat j' := a ! nat i']"
        "swap_int a i' j' = Inr a1" "range_perm a a1 low high" by auto
      have b: "0 \<le> i'" "i' < int (length a)" "0 \<le> j'" "j' < int (length a)"
        using i'h hi j'h lo i'l j'l by auto
      note sn = swap_nth_int[OF b, folded a1(1)]
      have n_i: "a1 ! nat i' = a ! nat j'" by (rule sn(1))
      have n_j: "a1 ! nat j' = a ! nat i'" by (rule sn(2))
      have n_o: "a1 ! nat k = a ! nat k" if "0 \<le> k" "k \<noteq> i'" "k \<noteq> j'" for k
        using that by (rule sn(3))
      have I2: "level (a1 ! nat k) \<le> ?pv" if "low \<le> k" "k \<le> i'" for k
      proof (cases "k = i'")
        case True
        with n_i R(3)[OF j'l] show ?thesis by simp
      next
        case False
        with that have ki: "k < i'" by simp
        have "level (a ! nat k) \<le> ?pv"
        proof (cases "k \<le> i")
          case True with later(4) that show ?thesis by simp
        next
          case False with L(2)[of k] ki show ?thesis by simp
        qed
        moreover have "a1 ! nat k = a ! nat k" using n_o[of k] that lo ki c by simp
        ultimately show ?thesis by simp
      qed
      have I3: "?pv \<le> level (a1 ! nat k)" if "j' \<le> k" "k \<le> high" for k
      proof (cases "k = j'")
        case True
        with n_j L(3)[OF i'h] show ?thesis by simp
      next
        case False
        with that have kj: "j' < k" by simp
        have "?pv \<le> level (a ! nat k)"
        proof (cases "j \<le> k")
          case True with later(5) that show ?thesis by simp
        next
          case False with R(2)[of k] kj show ?thesis by simp
        qed
        moreover have "a1 ! nat k = a ! nat k" using n_o[of k] that lo kj c j'l by simp
        ultimately show ?thesis by simp
      qed
      have S: "\<exists>s. low \<le> s \<and> s < j' \<and> level (a1 ! nat s) \<le> ?pv"
      proof (cases "i' < j'")
        case True
        with I2[of i'] i'l show ?thesis by auto
      next
        case False
        then have "i < j'" using c L(1) by simp
        moreover have "level (a1 ! nat i) \<le> ?pv" using I2[of i] later(1) L(1) by simp
        ultimately show ?thesis using later(1) by blast
      qed
      have "hoare_inv a1 ?pv low high i' j'"
        unfolding hoare_inv_def using i'l c j'h I2 I3 S by auto
      with a1 show ?thesis by blast
    qed
    from j'l j'h i'l post sw show ?thesis by auto
  qed
qed

lemma hoare_scan_left_safe:
  "- 1 \<le> i \<Longrightarrow> i \<le> high \<Longrightarrow> high + 1 < int (length a) \<Longrightarrow>
     \<exists>i'. hoare_scan_left a pvl high i = Inr i'"
proof (induction a pvl high i rule: hoare_scan_left.induct)
  case (1 a pvl high i)
  note unf = hoare_scan_left.simps[of a pvl high i]
  have v: "at_int a (i + 1) = Inr (a ! nat (i + 1))"
    using "1.prems" by (simp add: at_int_def)
  show ?case
  proof (cases "player_lt (a ! nat (i + 1)) pvl \<and> i + 1 \<le> high")
    case True
    from "1.IH"[OF refl v True] "1.prems" True
    obtain i' where "hoare_scan_left a pvl high (i + 1) = Inr i'" by auto
    with unf v True show ?thesis by (auto simp: Let_def)
  next
    case False
    with unf v show ?thesis by (auto simp: Let_def)
  qed
qed

lemma hoare_scan_right_safe:
  "j \<le> int (length a) \<Longrightarrow> \<exists>s. 0 \<le> s \<and> s < j \<and> level (a ! nat s) \<le> level pvl \<Longrightarrow>
     \<exists>j'. hoare_scan_right a pvl low j = Inr j'"
proof (induction a pvl low j rule: hoare_scan_right.induct)
  case (1 a pvl low j)
  note unf = hoare_scan_right.simps[of a pvl low j]
  from "1.prems"(2) obtain s where s: "0 \<le> s" "s < j" "level (a ! nat s) \<le> level pvl" by blast
  have v: "at_int a (j - 1) = Inr (a ! nat (j - 1))"
    using "1.prems"(1) s by (simp add: at_int_def)
  show ?case
  proof (cases "player_gt (a ! nat (j - 1)) pvl \<and> j - 1 \<ge> low")
    case True
    then have "s \<noteq> j - 1" using s(3) by (auto simp: player_gt_def)
    with s have "\<exists>s. 0 \<le> s \<and> s < j - 1 \<and> level (a ! nat s) \<le> level pvl"
      by (intro exI[of _ s]) simp
    from "1.IH"[OF refl v True _ this] "1.prems"(1)
    obtain j' where "hoare_scan_right a pvl low (j - 1) = Inr j'" by auto
    with unf v True show ?thesis by (auto simp: Let_def)
  next
    case False
    with unf v show ?thesis by (auto simp: Let_def)
  qed
qed

lemma hoare_inv_scans_safe:
  assumes "hoare_inv a (level pvl) low high i j" "0 \<le> low" "high + 1 < int (length a)"
  shows "\<exists>i' j'. hoare_scan_left a pvl high i = Inr i' \<and> hoare_scan_right a pvl low j = Inr j'"
proof -
  have "- 1 \<le> i" "i \<le> high" "j \<le> int (length a)"
    using assms unfolding hoare_inv_def by auto
  moreover have "\<exists>s. 0 \<le> s \<and> s < j \<and> level (a ! nat s) \<le> level pvl"
    using assms(1)
    unfolding hoare_inv_def
  proof (elim disjE conjE exE)
    assume "i = low - 1" "j = high + 1" "level (a ! nat high) = level pvl" "low < high"
    with assms(2) show ?thesis by (intro exI[of _ high]) simp
  next
    fix s assume "low \<le> s" "s < j" "level (a ! nat s) \<le> level pvl"
    with assms(2) show ?thesis by (intro exI[of _ s]) simp
  qed
  ultimately show ?thesis
    using hoare_scan_left_safe[of i high a pvl] hoare_scan_right_safe[of j a pvl low] assms(3)
    by blast
qed

lemma hoare_loop_spec:
  assumes "hoare_loop a pvl low high i j = Inr (a', p)"
    "hoare_inv a (level pvl) low high i j" "0 \<le> low" "high < int (length a)"
  shows "low \<le> p \<and> p < high \<and> range_perm a a' low high \<and>
         (\<forall>k. low \<le> k \<and> k \<le> p \<longrightarrow> level (a' ! nat k) \<le> level pvl) \<and>
         (\<forall>k. p < k \<and> k \<le> high \<longrightarrow> level pvl \<le> level (a' ! nat k))"
  using assms
proof (induction a pvl low high i j rule: hoare_loop.induct)
  case (1 a pvl low high i j)
  note unf = hoare_loop.simps[of a pvl low high i j]
  from "1.prems"(1) unf obtain i' j' where
    sl: "hoare_scan_left a pvl high i = Inr i'" and sr: "hoare_scan_right a pvl low j = Inr j'"
    by (auto split: sum.splits)
  note st = hoare_step[OF "1.prems"(2,3,4) sl sr]
  show ?case
  proof (cases "j' < i'")
    case True
    with "1.prems"(1) unf sl sr have "a' = a" "p = j'" by simp_all
    with st True show ?thesis by (simp add: range_perm_refl)
  next
    case False
    with st obtain a1 where a1: "swap_int a i' j' = Inr a1"
      "hoare_inv a1 (level pvl) low high i' j'" "range_perm a a1 low high" by auto
    from "1.prems"(1) unf sl sr False a1(1)
    have rec: "hoare_loop a1 pvl low high i' j' = Inr (a', p)" by simp
    have len: "high < int (length a1)"
      using "1.prems"(4) range_perm_length[OF a1(3)] by simp
    from False have n: "\<not> j' < i'" by simp
    from "1.IH"[OF sl sr n a1(1) rec a1(2) "1.prems"(3) len]
    have "low \<le> p \<and> p < high \<and> range_perm a1 a' low high \<and>
         (\<forall>k. low \<le> k \<and> k \<le> p \<longrightarrow> level (a' ! nat k) \<le> level pvl) \<and>
         (\<forall>k. p < k \<and> k \<le> high \<longrightarrow> level pvl \<le> level (a' ! nat k))" .
    with range_perm_trans[OF a1(3)] show ?thesis by blast
  qed
qed

lemma hoare_loop_safe:
  assumes "hoare_inv a (level pvl) low high i j" "0 \<le> low" "high + 1 < int (length a)"
  shows "\<exists>a' p. hoare_loop a pvl low high i j = Inr (a', p)"
  using assms
proof (induction a pvl low high i j rule: hoare_loop.induct)
  case (1 a pvl low high i j)
  note unf = hoare_loop.simps[of a pvl low high i j]
  from hoare_inv_scans_safe[OF "1.prems"] obtain i' j' where
    sl: "hoare_scan_left a pvl high i = Inr i'" and sr: "hoare_scan_right a pvl low j = Inr j'"
    by blast
  have hi: "high < int (length a)" using "1.prems"(3) by simp
  note st = hoare_step[OF "1.prems"(1,2) hi sl sr]
  show ?case
  proof (cases "j' < i'")
    case True
    with unf sl sr show ?thesis by simp
  next
    case False
    with st obtain a1 where a1: "swap_int a i' j' = Inr a1"
      "hoare_inv a1 (level pvl) low high i' j'" "range_perm a a1 low high" by auto
    have len: "high + 1 < int (length a1)"
      using "1.prems"(3) range_perm_length[OF a1(3)] by simp
    from False have n: "\<not> j' < i'" by simp
    from "1.IH"[OF sl sr n a1(1) a1(2) "1.prems"(2) len]
    show ?thesis using unf sl sr False a1(1) by simp
  qed
qed

lemma hoare_partition_spec:
  assumes "hoare_partition a low high high = Inr (a', p)" "0 \<le> low" "low < high"
  shows "low \<le> p \<and> p < high \<and> range_perm a a' low high \<and>
         (\<exists>pv. (\<forall>k. low \<le> k \<and> k \<le> p \<longrightarrow> level (a' ! nat k) \<le> pv) \<and>
               (\<forall>k. p < k \<and> k \<le> high \<longrightarrow> pv \<le> level (a' ! nat k)))"
proof -
  from assms(1) obtain pvl where pvl: "at_int a high = Inr pvl"
    and l: "hoare_loop a pvl low high (low - 1) (high + 1) = Inr (a', p)"
    by (auto simp: hoare_partition_def split: sum.splits)
  from pvl have hi: "high < int (length a)" and pv: "pvl = a ! nat high"
    by (auto simp: at_int_def split: if_splits)
  have inv: "hoare_inv a (level pvl) low high (low - 1) (high + 1)"
    using pv assms(3) by (simp add: hoare_inv_def)
  from hoare_loop_spec[OF l inv assms(2) hi] show ?thesis by blast
qed

lemma hoare_partition_safe:
  assumes "0 \<le> low" "low < high" "high + 1 < int (length a)"
  shows "\<exists>a' p. hoare_partition a low high high = Inr (a', p)"
proof -
  have pvl: "at_int a high = Inr (a ! nat high)" using assms by (simp add: at_int_def)
  have inv: "hoare_inv a (level (a ! nat high)) low high (low - 1) (high + 1)"
    using assms(2) by (simp add: hoare_inv_def)
  from hoare_loop_safe[OF inv assms(1,3)] pvl show ?thesis
    by (simp add: hoare_partition_def)
qed

termination quickSort
proof (relation "measure (\<lambda>(array, low, high). nat (high - low))", goal_cases)
  case 1
  show ?case by simp
next
  case (2 array low high x2 array' pivot)
  then show ?case using hoare_partition_spec[of array low high array' pivot] by auto
next
  case (3 array low high x2 array' pivot array'')
  then show ?case using hoare_partition_spec[of array low high array' pivot] by auto
qed

declare quickSort.simps [simp del]

lemma quickSort_spec:
  assumes "0 \<le> low" "low < high \<longrightarrow> high + 1 < int (length a)"
  shows "\<exists>a'. quickSort a low high = Inr a' \<and> range_perm a a' low high \<and>
           (\<forall>k l. low \<le> k \<and> k \<le> l \<and> l \<le> high \<longrightarrow> level (a' ! nat k) \<le> level (a' ! nat l))"
  using assms
proof (induction a low high rule: quickSort.induct)
  case (1 a low high)
  note unf = quickSort.simps[of a low high]
  show ?case
  proof (cases "low < high")
    case False
    then have "quickSort a low high = Inr a" using unf by simp
    moreover have "level (a ! nat k) \<le> level (a ! nat l)" if "low \<le> k" "k \<le> l" "l \<le> high" for k l
    proof -
      from that False have "k = l" by simp
      then show ?thesis by simp
    qed
    ultimately show ?thesis using range_perm_refl by auto
  next
    case True
    then have c: "low < high \<and> low \<ge> 0" using "1.prems"(1) by simp
    have hi: "high + 1 < int (length a)" using True "1.prems"(2) by simp
    from hoare_partition_safe[OF "1.prems"(1) True hi] obtain a1 p where
      hp: "hoare_partition a low high high = Inr (a1, p)" by blast
    from hoare_partition_spec[OF hp "1.prems"(1) True] obtain pv where
      p: "low \<le> p" "p < high" and rp1: "range_perm a a1 low high"
      and le: "\<forall>k. low \<le> k \<and> k \<le> p \<longrightarrow> level (a1 ! nat k) \<le> pv"
      and ge: "\<forall>k. p < k \<and> k \<le> high \<longrightarrow> pv \<le> level (a1 ! nat k)" by blast
    have len1: "length a1 = length a" by (rule range_perm_length[OF rp1])
    have pre1: "low < p \<longrightarrow> p + 1 < int (length a1)" using p hi len1 by simp
    from "1.IH"(1)[OF c hp refl "1.prems"(1) pre1] obtain a2 where
      q1: "quickSort a1 low p = Inr a2" and rp2: "range_perm a1 a2 low p"
      and s2: "\<forall>k l. low \<le> k \<and> k \<le> l \<and> l \<le> p \<longrightarrow> level (a2 ! nat k) \<le> level (a2 ! nat l)"
      by blast
    have len2: "length a2 = length a1" by (rule range_perm_length[OF rp2])
    have pre2: "p + 1 < high \<longrightarrow> high + 1 < int (length a2)" using hi len1 len2 by simp
    have p0: "0 \<le> p + 1" using p "1.prems"(1) by simp
    from "1.IH"(2)[OF c hp refl q1 p0 pre2] obtain a3 where
      q2: "quickSort a2 (p + 1) high = Inr a3" and rp3: "range_perm a2 a3 (p + 1) high"
      and s3: "\<forall>k l. p + 1 \<le> k \<and> k \<le> l \<and> l \<le> high \<longrightarrow> level (a3 ! nat k) \<le> level (a3 ! nat l)"
      by blast
    have res: "quickSort a low high = Inr a3"
      using unf c hp q1 q2 by simp
    have hl1: "high < int (length a1)" "high < int (length a2)" using hi len1 len2 by simp_all
    have w2: "range_perm a1 a2 low high"
      by (rule range_perm_widen[OF rp2 order_refl _ "1.prems"(1) hl1(1)]) (use p in simp)
    have w3: "range_perm a2 a3 low high"
      by (rule range_perm_widen[OF rp3 _ order_refl "1.prems"(1) hl1(2)]) (use p in simp)
    have rp: "range_perm a a3 low high"
      using range_perm_trans[OF rp1 range_perm_trans[OF w2 w3]] .
    have le2: "level (a2 ! nat k) \<le> pv" if "low \<le> k" "k \<le> p" for k
      using range_perm_pred[OF rp2, of "\<lambda>x. level x \<le> pv" k] le that by blast
    have ge2: "pv \<le> level (a2 ! nat k)" if "p < k" "k \<le> high" for k
    proof -
      have "a2 ! nat k = a1 ! nat k"
        using range_perm_outside[OF rp2, of k] that hl1(1) p "1.prems"(1) by simp
      with ge that show ?thesis by simp
    qed
    have eq3: "a3 ! nat k = a2 ! nat k" if "low \<le> k" "k \<le> p" for k
      using range_perm_outside[OF rp3, of k] that hl1(2) p "1.prems"(1) by simp
    have ge3: "pv \<le> level (a3 ! nat k)" if "p + 1 \<le> k" "k \<le> high" for k
      using range_perm_pred[OF rp3, of "\<lambda>x. pv \<le> level x" k] ge2 that by simp
    have "level (a3 ! nat k) \<le> level (a3 ! nat l)" if "low \<le> k" "k \<le> l" "l \<le> high" for k l
    proof -
      consider "l \<le> p" | "p + 1 \<le> k" | "k \<le> p" "p + 1 \<le> l" by linarith
      then show ?thesis
      proof cases
        case 1
        with that s2 eq3[of k] eq3[of l] show ?thesis by simp
      next
        case 2
        with that s3 show ?thesis by simp
      next
        case 3
        have "level (a3 ! nat k) \<le> pv" using eq3[of k] le2[of k] that 3 by simp
        moreover have "pv \<le> level (a3 ! nat l)" using ge3[of l] that 3 by simp
        ultimately show ?thesis by simp
      qed
    qed
    with res rp show ?thesis by blast
  qed
qed

lemma lomuto_loop_spec_gen:
  assumes "pivot = high" "0 \<le> low" "high < int (length a)" "low \<le> i" "i \<le> j" "j \<le> high"
    "\<forall>k. low \<le> k \<and> k < i \<longrightarrow> level (a ! nat high) < level (a ! nat k)"
    "\<forall>k. i \<le> k \<and> k < j \<longrightarrow> level (a ! nat k) \<le> level (a ! nat high)"
  shows "\<exists>a' i'. lomuto_loop a high pivot i j = Inr (a', i') \<and> low \<le> i' \<and> i' \<le> high \<and>
           range_perm a a' low high \<and> a' ! nat high = a ! nat high \<and>
           (\<forall>k. low \<le> k \<and> k < i' \<longrightarrow> level (a' ! nat high) < level (a' ! nat k)) \<and>
           (\<forall>k. i' \<le> k \<and> k < high \<longrightarrow> level (a' ! nat k) \<le> level (a' ! nat high))"
  using assms
proof (induction a high pivot i j rule: lomuto_loop.induct)
  case (1 a high pivot i j)
  note pv = \<open>pivot = high\<close>
  note unf = lomuto_loop.simps[of a high high i j]
  note lo = \<open>0 \<le> low\<close> and hi = \<open>high < int (length a)\<close>
  note prems = "1.prems"(2-)
  note IH = "1.IH"[unfolded pv]
  show ?case
  proof (cases "j < high")
    case False
    then have "j = high" using prems by simp
    with unf prems pv show ?thesis by (auto simp: range_perm_refl)
  next
    case True
    have aj: "at_int a j = Inr (a ! nat j)" and ap: "at_int a high = Inr (a ! nat high)"
      using prems True by (auto simp: at_int_def)
    show ?thesis
    proof (cases "player_gt (a ! nat j) (a ! nat high)")
      case False
      then have n: "level (a ! nat j) \<le> level (a ! nat high)" by (simp add: player_gt_def)
      have inv: "\<forall>k. i \<le> k \<and> k < j + 1 \<longrightarrow> level (a ! nat k) \<le> level (a ! nat high)"
      proof (intro allI impI)
        fix k assume "i \<le> k \<and> k < j + 1"
        then show "level (a ! nat k) \<le> level (a ! nat high)"
          using prems(7) n by (cases "k = j") auto
      qed
      have "lomuto_loop a high high i j = lomuto_loop a high high i (j + 1)"
        using unf True aj ap False by simp
      with IH(2)[OF True aj ap False refl lo hi \<open>low \<le> i\<close> _ _ prems(6) inv]
        prems(4) True pv
      show ?thesis by simp
    next
      case gt: True
      then have g: "level (a ! nat high) < level (a ! nat j)" by (simp add: player_gt_def)
      let ?a1 = "a[nat i := a ! nat j, nat j := a ! nat i]"
      have ih: "i \<le> high" "low \<le> j" "j \<le> high" using prems True by simp_all
      from swap_int_range_perm[OF lo hi \<open>low \<le> i\<close> ih(1) ih(2) ih(3)]
      have sw: "swap_int a i j = Inr ?a1" and rp: "range_perm a ?a1 low high" by simp_all
      have b: "0 \<le> i" "i < int (length a)" "0 \<le> j" "j < int (length a)"
        using prems True by simp_all
      note sn = swap_nth_int[OF b]
      have ph: "?a1 ! nat high = a ! nat high"
        using sn(3)[of high] prems True by simp
      have len: "high < int (length ?a1)" using hi by simp
      have i1: "\<forall>k. low \<le> k \<and> k < i + 1 \<longrightarrow> level (?a1 ! nat high) < level (?a1 ! nat k)"
      proof (intro allI impI)
        fix k assume k: "low \<le> k \<and> k < i + 1"
        show "level (?a1 ! nat high) < level (?a1 ! nat k)"
        proof (cases "k = i")
          case True
          with sn(1) ph g show ?thesis by simp
        next
          case False
          with k have "k < i" by simp
          then have "?a1 ! nat k = a ! nat k" using sn(3)[of k] k lo prems(4) by simp
          with prems(6) k \<open>k < i\<close> ph show ?thesis by simp
        qed
      qed
      have i2: "\<forall>k. i + 1 \<le> k \<and> k < j + 1 \<longrightarrow> level (?a1 ! nat k) \<le> level (?a1 ! nat high)"
      proof (intro allI impI)
        fix k assume k: "i + 1 \<le> k \<and> k < j + 1"
        show "level (?a1 ! nat k) \<le> level (?a1 ! nat high)"
        proof (cases "k = j")
          case True
          with k have "i < j" by simp
          with prems(7) have "level (a ! nat i) \<le> level (a ! nat high)" by simp
          with True sn(2) ph show ?thesis by simp
        next
          case False
          with k have kk: "i < k" "k < j" by simp_all
          then have "?a1 ! nat k = a ! nat k" using sn(3)[of k] b by simp
          with prems(7) kk ph show ?thesis by simp
        qed
      qed
      have "lomuto_loop a high high i j = lomuto_loop ?a1 high high (i + 1) (j + 1)"
        using unf True aj ap gt sw by simp
      moreover from IH(1)[OF True aj ap gt sw refl lo len _ _ _ i1 i2] prems True
      obtain a' i' where r: "lomuto_loop ?a1 high high (i + 1) (j + 1) = Inr (a', i')"
        "low \<le> i'" "i' \<le> high" "range_perm ?a1 a' low high" "a' ! nat high = ?a1 ! nat high"
        "\<forall>k. low \<le> k \<and> k < i' \<longrightarrow> level (a' ! nat high) < level (a' ! nat k)"
        "\<forall>k. i' \<le> k \<and> k < high \<longrightarrow> level (a' ! nat k) \<le> level (a' ! nat high)"
        by auto
      ultimately show ?thesis
        using range_perm_trans[OF rp r(4)] ph pv by auto
    qed
  qed
qed

lemma lomuto_loop_spec:
  assumes "0 \<le> low" "high < int (length a)" "low \<le> i" "i \<le> j" "j \<le> high"
    "\<forall>k. low \<le> k \<and> k < i \<longrightarrow> level (a ! nat high) < level (a ! nat k)"
    "\<forall>k. i \<le> k \<and> k < j \<longrightarrow> level (a ! nat k) \<le> level (a ! nat high)"
  shows "\<exists>a' i'. lomuto_loop a high high i j = Inr (a', i') \<and> low \<le> i' \<and> i' \<le> high \<and>
           range_perm a a' low high \<and> a' ! nat high = a ! nat high \<and>
           (\<forall>k. low \<le> k \<and> k < i' \<longrightarrow> level (a' ! nat high) < level (a' ! nat k)) \<and>
           (\<forall>k. i' \<le> k \<and> k < high \<longrightarrow> level (a' ! nat k) \<le> level (a' ! nat high))"
  by (rule lomuto_loop_spec_gen[OF refl assms])

lemma lomuto_partition_spec:
  assumes "0 \<le> low" "low \<le> high" "high < int (length a)"
  shows "\<exists>a' idx. lomuto_partition a low high high = Inr (a', idx) \<and>
           low \<le> idx \<and> idx \<le> high \<and> range_perm a a' low high \<and>
           (\<forall>k. low \<le> k \<and> k < idx \<longrightarrow> level (a' ! nat idx) < level (a' ! nat k)) \<and>
           (\<forall>k. idx < k \<and> k \<le> high \<longrightarrow> level (a' ! nat k) \<le> level (a' ! nat idx))"
proof -
  from lomuto_loop_spec[OF assms(1,3) order_refl order_refl assms(2)]
  obtain a1 i where l: "lomuto_loop a high high low low = Inr (a1, i)"
    "low \<le> i" "i \<le> high" "range_perm a a1 low high" "a1 ! nat high = a ! nat high"
    "\<forall>k. low \<le> k \<and> k < i \<longrightarrow> level (a1 ! nat high) < level (a1 ! nat k)"
    "\<forall>k. i \<le> k \<and> k < high \<longrightarrow> level (a1 ! nat k) \<le> level (a1 ! nat high)"
    by auto
  have len: "high < int (length a1)" using assms(3) range_perm_length[OF l(4)] by simp
  let ?a2 = "a1[nat high := a1 ! nat i, nat i := a1 ! nat high]"
  from swap_int_range_perm[OF assms(1) len assms(2) order_refl l(2,3)]
  have sw: "swap_int a1 high i = Inr ?a2" and rp: "range_perm a1 ?a2 low high" by simp_all
  have b: "0 \<le> high" "high < int (length a1)" "0 \<le> i" "i < int (length a1)"
    using assms l len by simp_all
  note sn = swap_nth_int[OF b]
  have res: "lomuto_partition a low high high = Inr (?a2, i)"
    using l(1) sw by (simp add: lomuto_partition_def)
  have p1: "level (?a2 ! nat i) < level (?a2 ! nat k)" if "low \<le> k" "k < i" for k
  proof -
    have "?a2 ! nat k = a1 ! nat k" using sn(3)[of k] that assms(1) l(3) by simp
    with l(6) that sn(2) show ?thesis by simp
  qed
  have p2: "level (?a2 ! nat k) \<le> level (?a2 ! nat i)" if "i < k" "k \<le> high" for k
  proof (cases "k = high")
    case True
    with that l(7) have "level (a1 ! nat i) \<le> level (a1 ! nat high)" by simp
    with True sn(1,2) show ?thesis by simp
  next
    case False
    then have "?a2 ! nat k = a1 ! nat k" using sn(3)[of k] that l(2) assms(1) by simp
    with l(7) that False sn(2) show ?thesis by simp
  qed
  from res l(2,3) range_perm_trans[OF l(4) rp] p1 p2 show ?thesis by blast
qed

lemma split_at_range_perm:
  assumes "split_at a m" "range_perm a a' low high" "0 \<le> low" "high < int (length a)"
    "m \<le> low \<or> high < m"
  shows "split_at a' m"
  unfolding split_at_def
proof (intro allI impI)
  fix x y assume xy: "0 \<le> x \<and> x < m \<and> m \<le> y \<and> y < int (length a')"
  have len: "length a' = length a" by (rule range_perm_length[OF assms(2)])
  note sa = assms(1)[unfolded split_at_def, rule_format]
  from assms(5) show "level (a' ! nat y) \<le> level (a' ! nat x)"
  proof
    assume m: "m \<le> low"
    then have ex: "a' ! nat x = a ! nat x"
      using range_perm_outside[OF assms(2), of x] xy len by simp
    show ?thesis
    proof (cases "low \<le> y \<and> y \<le> high")
      case True
      have "\<forall>k. low \<le> k \<and> k \<le> high \<longrightarrow> level (a ! nat k) \<le> level (a ! nat x)"
        using sa[of x] xy m assms(4) by auto
      from range_perm_pred[OF assms(2), of "\<lambda>p. level p \<le> level (a ! nat x)" y, OF this] True ex
      show ?thesis by simp
    next
      case False
      then have "a' ! nat y = a ! nat y"
        using range_perm_outside[OF assms(2), of y] xy len assms(3) by auto
      with ex sa[of x y] xy len show ?thesis by simp
    qed
  next
    assume m: "high < m"
    then have ey: "a' ! nat y = a ! nat y"
      using range_perm_outside[OF assms(2), of y] xy len by simp
    show ?thesis
    proof (cases "low \<le> x \<and> x \<le> high")
      case True
      have "\<forall>k. low \<le> k \<and> k \<le> high \<longrightarrow> level (a ! nat y) \<le> level (a ! nat k)"
        using sa[of _ y] xy m assms(3) len by auto
      from range_perm_pred[OF assms(2), of "\<lambda>p. level (a ! nat y) \<le> level p" x, OF this] True ey
      show ?thesis by simp
    next
      case False
      then have "a' ! nat x = a ! nat x"
        using range_perm_outside[OF assms(2), of x] xy len assms(4) by auto
      with ey sa[of x y] xy len show ?thesis by simp
    qed
  qed
qed

lemma quickSelect_spec:
  assumes "0 \<le> low" "high < int (length a)" "low \<le> k" "k \<le> high + 1"
    "split_at a low" "split_at a (high + 1)"
  shows "\<exists>a'. quickSelect a low high k = Inr a' \<and> length a' = length a \<and> mset a' = mset a \<and>
           split_at a' k"
  using assms
proof (induction a low high k rule: quickSelect.induct)
  case (1 a low high k)
  note unf = quickSelect.simps[of a low high k]
  show ?case
  proof (cases "low \<le> high")
    case False
    with "1.prems" have "k = low" by simp
    with unf False "1.prems"(5) show ?thesis by simp
  next
    case True
    then have c: "low \<le> high \<and> low \<ge> 0" using "1.prems"(1) by simp
    from lomuto_partition_spec[OF "1.prems"(1) True "1.prems"(2)] obtain a1 idx where
      lp: "lomuto_partition a low high high = Inr (a1, idx)"
      and ix: "low \<le> idx" "idx \<le> high" and rp: "range_perm a a1 low high"
      and gt: "\<forall>k. low \<le> k \<and> k < idx \<longrightarrow> level (a1 ! nat idx) < level (a1 ! nat k)"
      and le: "\<forall>k. idx < k \<and> k \<le> high \<longrightarrow> level (a1 ! nat k) \<le> level (a1 ! nat idx)"
      by blast
    have len: "length a1 = length a" by (rule range_perm_length[OF rp])
    have ms: "mset a1 = mset a" by (rule range_perm_mset[OF rp])
    have hl: "high < int (length a1)" using "1.prems"(2) len by simp
    have B1: "split_at a1 low"
      by (rule split_at_range_perm[OF "1.prems"(5) rp "1.prems"(1,2)]) simp
    have B2: "split_at a1 (high + 1)"
      by (rule split_at_range_perm[OF "1.prems"(6) rp "1.prems"(1,2)]) simp
    note b1 = B1[unfolded split_at_def, rule_format]
    note b2 = B2[unfolded split_at_def, rule_format]
    show ?thesis
    proof (cases "idx < k")
      case True
      have n1: "split_at a1 (idx + 1)"
        unfolding split_at_def
      proof (intro allI impI)
        fix x y assume xy: "0 \<le> x \<and> x < idx + 1 \<and> idx + 1 \<le> y \<and> y < int (length a1)"
        show "level (a1 ! nat y) \<le> level (a1 ! nat x)"
        proof (cases "high < y")
          case True
          with b2[of x y] xy ix show ?thesis by simp
        next
          case yh: False
          then have y: "level (a1 ! nat y) \<le> level (a1 ! nat idx)" using le xy by simp
          consider "x < low" | "low \<le> x" "x < idx" | "x = idx" using xy by linarith
          then show ?thesis
          proof cases
            case 1
            with b1[of x y] xy ix show ?thesis by simp
          next
            case 2
            with gt have "level (a1 ! nat idx) < level (a1 ! nat x)" by simp
            with y show ?thesis by simp
          next
            case 3
            with y show ?thesis by simp
          qed
        qed
      qed
      have p0: "0 \<le> idx + 1" using ix "1.prems"(1) by simp
      have pk: "idx + 1 \<le> k" using True by simp
      from "1.IH"(1)[OF c lp refl True p0 hl pk "1.prems"(4) n1 B2] obtain a' where
        "quickSelect a1 (idx + 1) high k = Inr a'" "length a' = length a1" "mset a' = mset a1"
        "split_at a' k" by blast
      with unf c lp True len ms show ?thesis by simp
    next
      case False
      have n2: "split_at a1 (idx - 1 + 1)"
        unfolding split_at_def
      proof (intro allI impI)
        fix x y assume xy: "0 \<le> x \<and> x < idx - 1 + 1 \<and> idx - 1 + 1 \<le> y \<and> y < int (length a1)"
        show "level (a1 ! nat y) \<le> level (a1 ! nat x)"
        proof (cases "high < y")
          case True
          with b2[of x y] xy ix show ?thesis by simp
        next
          case yh: False
          have y: "level (a1 ! nat y) \<le> level (a1 ! nat idx)"
            using le xy yh by (cases "y = idx") auto
          show ?thesis
          proof (cases "x < low")
            case True
            with b1[of x y] xy ix show ?thesis by simp
          next
            case False
            with gt xy have "level (a1 ! nat idx) < level (a1 ! nat x)" by simp
            with y show ?thesis by simp
          qed
        qed
      qed
      have ph: "idx - 1 < int (length a1)" using ix hl by simp
      have pk: "k \<le> idx - 1 + 1" using False by simp
      from "1.IH"(2)[OF c lp refl False "1.prems"(1) ph "1.prems"(3) pk B1 n2] obtain a' where
        "quickSelect a1 low (idx - 1) k = Inr a'" "length a' = length a1" "mset a' = mset a1"
        "split_at a' k" by blast
      with unf c lp False len ms show ?thesis by simp
    qed
  qed
qed

lemma is_topk_append:
  assumes "\<forall>x\<in>set xs. \<forall>y\<in>set ys. level y \<le> level x"
  shows "is_topk (mset (map level xs)) (mset (map level (ys @ xs)))"
  using assms by (auto simp: is_topk_def)

lemma top_tenth_bounds: "0 \<le> top_tenth n \<and> top_tenth n \<le> int n \<and> (0 < n \<longrightarrow> top_tenth n < int n)"
  by (auto simp: top_tenth_def)

lemma quickSelectRank_run:
  "\<exists>a1 a2.
     quickSelect players 0 (int (length players) - 1) (top_tenth (length players)) = Inr a1 \<and>
     quickSort a1 0 (top_tenth (length players) - 1) = Inr a2 \<and>
     quickSelectRank players =
       Inr \<lparr>top_players = take (nat (top_tenth (length players))) a2, cutoffs = Map.empty\<rparr> \<and>
     length (take (nat (top_tenth (length players))) a2) = length players div 10 \<and>
     map level (take (nat (top_tenth (length players))) a2) =
       largest (length players div 10) (map level players)"
proof -
  let ?n = "length players"
  let ?k = "top_tenth ?n"
  note tb = top_tenth_bounds[of ?n]
  have s0: "split_at players 0" by (simp add: split_at_def)
  have sn: "split_at players (int ?n - 1 + 1)" by (simp add: split_at_def)
  from quickSelect_spec[of 0 "int ?n - 1" players ?k, OF _ _ _ _ s0 sn] tb
  obtain a1 where q1: "quickSelect players 0 (int ?n - 1) ?k = Inr a1"
    and len1: "length a1 = ?n" and ms1: "mset a1 = mset players" and sp1: "split_at a1 ?k"
    by auto
  have pre: "0 < ?k - 1 \<longrightarrow> ?k - 1 + 1 < int (length a1)" using tb len1 by auto
  from quickSort_spec[OF order_refl pre] obtain a2 where
    q2: "quickSort a1 0 (?k - 1) = Inr a2" and rp: "range_perm a1 a2 0 (?k - 1)"
    and so: "\<forall>x y. 0 \<le> x \<and> x \<le> y \<and> y \<le> ?k - 1 \<longrightarrow> level (a2 ! nat x) \<le> level (a2 ! nat y)"
    by blast
  have len2: "length a2 = ?n" using range_perm_length[OF rp] len1 by simp
  have ms2: "mset a2 = mset players" using range_perm_mset[OF rp] ms1 by simp
  have sp2: "split_at a2 ?k"
  proof (cases "?k = 0")
    case True
    then show ?thesis by (simp add: split_at_def)
  next
    case False
    then have "?k - 1 < int (length a1)" using tb len1 by auto
    from split_at_range_perm[OF sp1 rp order_refl this] show ?thesis by simp
  qed
  let ?top = "take (nat ?k) a2"
  have res: "quickSelectRank players = Inr \<lparr>top_players = ?top, cutoffs = Map.empty\<rparr>"
    using q1 q2 tb len2 by (simp add: quickSelectRank_def Let_def)
  have kn: "nat ?k = ?n div 10" by (simp add: top_tenth_def nat_div_distrib)
  have lt: "length ?top = ?n div 10" using tb len2 kn by simp
  have sorted_top: "sorted (map level ?top)"
    unfolding sorted_iff_nth_mono
  proof (intro allI impI)
    fix i j assume ij: "i \<le> j" "j < length (map level ?top)"
    then have "j < nat ?k" "j < length a2" by simp_all
    with ij so[rule_format, of "int i" "int j"] show "map level ?top ! i \<le> map level ?top ! j"
      by (simp add: nat_less_iff)
  qed
  have kK: "?k = int (?n div 10)" by (simp add: top_tenth_def zdiv_int)
  have "\<forall>x\<in>set ?top. \<forall>y\<in>set (drop (nat ?k) a2). level y \<le> level x"
  proof (intro ballI)
    fix x y assume "x \<in> set ?top" "y \<in> set (drop (nat ?k) a2)"
    then obtain i j where i: "i < length ?top" "x = ?top ! i"
      and j: "j < length (drop (nat ?k) a2)" "y = drop (nat ?k) a2 ! j"
      by (metis in_set_conv_nth)
    from i have xi: "x = a2 ! i" "i < ?n div 10" by (simp_all add: kK)
    from j have yj: "y = a2 ! (?n div 10 + j)" "?n div 10 + j < length a2" by (simp_all add: kK)
    have "level (a2 ! nat (int (?n div 10 + j))) \<le> level (a2 ! nat (int i))"
      using sp2[unfolded split_at_def, rule_format, of "int i" "int (?n div 10 + j)"] xi(2) yj(2)
      unfolding kK by simp
    then have "level (a2 ! (?n div 10 + j)) \<le> level (a2 ! i)"
      by (simp only: nat_int)
    with xi yj show "level y \<le> level x" by simp
  qed
  from is_topk_append[OF this] have "is_topk (mset (map level ?top)) (mset (map level a2))"
    by (metis append_take_drop_id mset_append union_commute mset_map map_append)
  moreover have "mset (map level a2) = mset (map level players)"
    using ms2 by (metis mset_map)
  ultimately have "is_topk (mset (map level ?top)) (mset (map level players))" by simp
  from is_topk_sorted[OF sorted_top this] lt
  have "map level ?top = largest (?n div 10) (map level players)" by simp
  with res lt q1 q2 show ?thesis by blast
qed

lemma quickSelectRank_spec:
  "\<exists>res. quickSelectRank players = Inr res \<and>
     length (top_players res) = length players div 10 \<and>
     map level (top_players res) = largest (length players div 10) (map level players) \<and>
     cutoffs res = Map.empty"
  using quickSelectRank_run[of players] by auto

subsection \<open>Selection by heap\<close>

lemma conforming_make_heap_less:
  "conforming L \<Longrightarrow> mset (make_heap_less L xs) = mset xs \<and> is_heap True (make_heap_less L xs)"
  by (simp add: conforming_def)

lemma conforming_pop_heap:
  "conforming L \<Longrightarrow> xs \<noteq> [] \<Longrightarrow> is_heap True xs \<Longrightarrow>
     \<exists>ys. pop_heap_less L xs = ys @ [hd xs] \<and> mset ys = mset (tl xs) \<and> is_heap True ys"
  by (simp add: conforming_def)

lemma heap_max:
  assumes "is_heap True xs" "x \<in> set xs"
  shows "level x \<le> level (hd xs)"
proof -
  from assms(2) obtain i where i: "i < length xs" "x = xs ! i" by (metis in_set_conv_nth)
  then have "xs \<noteq> []" by auto
  then have "hd xs = xs ! 0" by (simp add: hd_conv_nth)
  with heap_root[OF assms(1) i(1)] i(2) show ?thesis by (simp add: heap_ord_def)
qed

lemma heapRank_loop_spec:
  "conforming L \<Longrightarrow> 0 \<le> i \<Longrightarrow> i \<le> top_10 \<Longrightarrow> top_10 \<le> int (length xs) \<Longrightarrow>
     is_heap True (take (length xs - nat i) xs) \<Longrightarrow>
     sorted (map level (drop (length xs - nat i) xs)) \<Longrightarrow>
     \<forall>x\<in>set (take (length xs - nat i) xs). \<forall>y\<in>set (drop (length xs - nat i) xs).
        level x \<le> level y \<Longrightarrow>
     \<exists>xs'. heapRank_loop L xs i top_10 = Inr xs' \<and> mset xs' = mset xs \<and>
        sorted (map level (drop (length xs' - nat top_10) xs')) \<and>
        (\<forall>x\<in>set (take (length xs' - nat top_10) xs').
           \<forall>y\<in>set (drop (length xs' - nat top_10) xs'). level x \<le> level y)"
proof (induction L xs i top_10 rule: heapRank_loop.induct)
  case (1 L' xs i top_10)
  note unf = heapRank_loop.simps[of L' xs i top_10]
  show ?case
  proof (cases "i < top_10")
    case False
    then have "i = top_10" using "1.prems" by simp
    with unf "1.prems" show ?thesis by simp
  next
    case True
    let ?n = "length xs - nat i"
    let ?H = "take ?n xs" and ?S = "drop ?n xs"
    have nb: "\<not> (i < 0 \<or> int (length xs) \<le> i)" using True "1.prems" by simp
    have lH: "length ?H = ?n" by simp
    have n0: "0 < ?n" using True "1.prems" by (simp add: zero_less_diff nat_less_iff)
    then have ne: "?H \<noteq> []" by auto
    from conforming_pop_heap[OF \<open>conforming L'\<close> ne "1.prems"(5)] obtain ys where
      ph: "pop_heap_less L' ?H = ys @ [hd ?H]" and ms: "mset ys = mset (tl ?H)"
      and hp: "is_heap True ys" by blast
    let ?xs1 = "pop_heap_less L' ?H @ ?S"
    have ly: "length ys = ?n - 1" using ms by (metis length_tl lH mset_eq_length)
    have len1: "length ?xs1 = length xs" using ph ly n0 by simp
    have ni: "length ?xs1 - nat (i + 1) = ?n - 1" using len1 "1.prems"(2) by (simp add: nat_add_distrib)
    have tk: "take (?n - 1) ?xs1 = ys" using ph ly by simp
    have dr: "drop (?n - 1) ?xs1 = hd ?H # ?S" using ph ly by simp
    have hdH: "hd ?H \<in> set ?H" using ne by (rule hd_in_set)
    have ys_sub: "set ys \<subseteq> set ?H"
      using ms ne by (metis list.set_sel(2) mset_eq_setD subsetI)
    have s1: "sorted (map level (hd ?H # ?S))"
      using "1.prems"(6,7) hdH by auto
    have o1: "\<forall>x\<in>set ys. \<forall>y\<in>set (hd ?H # ?S). level x \<le> level y"
      using ys_sub heap_max[OF "1.prems"(5)] "1.prems"(7) by auto
    have ms1: "mset ?xs1 = mset xs"
    proof -
      have "mset ?xs1 = mset (tl ?H) + {#hd ?H#} + mset ?S" using ph ms by simp
      also have "mset (tl ?H) + {#hd ?H#} = mset ?H" using ne by (cases ?H) simp_all
      also have "mset ?H + mset ?S = mset xs" by (metis append_take_drop_id mset_append)
      finally show ?thesis .
    qed
    have i1: "0 \<le> i + 1" "i + 1 \<le> top_10" "top_10 \<le> int (length ?xs1)"
      using True "1.prems" len1 by simp_all
    from "1.IH"[OF True nb refl \<open>conforming L'\<close> i1] hp s1 o1
    obtain xs' where r: "heapRank_loop L' ?xs1 (i + 1) top_10 = Inr xs'" "mset xs' = mset ?xs1"
      "sorted (map level (drop (length xs' - nat top_10) xs'))"
      "\<forall>x\<in>set (take (length xs' - nat top_10) xs').
           \<forall>y\<in>set (drop (length xs' - nat top_10) xs'). level x \<le> level y"
      unfolding ni tk dr by blast
    have "heapRank_loop L' xs i top_10 = heapRank_loop L' ?xs1 (i + 1) top_10"
      using unf True nb by (simp add: Let_def)
    with r ms1 show ?thesis by simp
  qed
qed

lemma heapRank_spec:
  assumes L: "conforming L" and n: "2 \<le> length players"
  shows "\<exists>res. heapRank L players = Inr res \<and>
     length (top_players res) = length players div 10 \<and>
     map level (top_players res) = largest (length players div 10) (map level players) \<and>
     cutoffs res = Map.empty"
proof -
  let ?n = "length players"
  let ?h = "make_heap_less L players"
  note mh = conforming_make_heap_less[OF L, of players]
  have lh: "length ?h = ?n" using mh by (metis mset_eq_length)
  note tb = top_tenth_bounds[of ?n]
  have kK: "nat (top_tenth ?n) = ?n div 10" by (simp add: top_tenth_def zdiv_int)
  from heapRank_loop_spec[OF L, of 0 "top_tenth ?n" ?h] tb lh mh
  obtain xs' where r: "heapRank_loop L ?h 0 (top_tenth ?n) = Inr xs'" "mset xs' = mset ?h"
    "sorted (map level (drop (length xs' - nat (top_tenth ?n)) xs'))"
    "\<forall>x\<in>set (take (length xs' - nat (top_tenth ?n)) xs').
           \<forall>y\<in>set (drop (length xs' - nat (top_tenth ?n)) xs'). level x \<le> level y"
    by auto
  have lx: "length xs' = ?n" using r(2) lh by (metis mset_eq_length)
  let ?top = "drop (?n - ?n div 10) xs'" and ?rest = "take (?n - ?n div 10) xs'"
  have res: "heapRank L players = Inr \<lparr>top_players = ?top, cutoffs = Map.empty\<rparr>"
    using n r(1) tb lx kK by (simp add: heapRank_def Let_def)
  have lt: "length ?top = ?n div 10" using lx by simp
  have "\<forall>x\<in>set ?top. \<forall>y\<in>set ?rest. level y \<le> level x"
    using r(4) unfolding lx kK by blast
  from is_topk_append[OF this] have "is_topk (mset (map level ?top)) (mset (map level xs'))"
    by simp
  moreover have "mset (map level xs') = mset (map level players)"
    using r(2) mh by (metis mset_map)
  ultimately have "is_topk (mset (map level ?top)) (mset (map level players))" by simp
  from is_topk_sorted[OF r(3)[unfolded lx kK] this] lt
  have "map level ?top = largest (?n div 10) (map level players)" by simp
  with res lt show ?thesis by simp
qed

lemma heapRank_small:
  "length players \<le> 1 \<Longrightarrow> heapRank L players = Inr \<lparr>top_players = players, cutoffs = Map.empty\<rparr>"
  by (simp add: heapRank_def)

section \<open>The claims\<close>

text \<open>
  Claim C7, as stated, at the range with levels 5, 10, 7, 3 and the root at position 1:
  the min-heap order holds at every node but the root (position 1 lies above position 3),
  and \<open>percolateDown\<close> leaves 5, 3, 7, 10, where position 0 lies above position 1.
\<close>

theorem percolateDown_inner_root_counterexample:
  "heap_except False (map anon [5, 10, 7, 3]) 1 \<and>
   percolateDown 1 (map anon [5, 10, 7, 3]) False = Inr (map anon [5, 3, 7, 10]) \<and>
   \<not> is_heap False (map anon [5, 3, 7, 10])"
  by (simp add: heap_except_def is_heap_def parent_def heap_ord_def anon_def upt_rec
      percolateDown_def percolateDown_loop.simps at_def pick_child_def iter_swap_def
      player_lt_def player_gt_def)

text \<open>
  Claim C7, amended: for every range and every root in it, if every node but the root is
  in heap order with its children (min- or max-oriented by the flag) and the parent of the
  root, when the root is not the start, is in heap order with the children of the root,
  then \<open>percolateDown\<close> returns without reading or swapping outside the range, also when
  a node has a left child only, and leaves a permutation of the range that is in heap
  order everywhere. When the root is the start the second condition is void.
\<close>

theorem percolateDown_restores_heap:
  assumes "root < length xs" and "heap_except mx xs root" and "bridged mx xs root"
  shows "\<exists>ys. percolateDown root xs mx = Inr ys \<and> is_heap mx ys \<and> mset ys = mset xs"
  using percolateDown_heap[OF assms] by blast

theorem percolateDown_restores_heap_witness:
  "1 < length (map anon [1, 9, 2, 3]) \<and>
   heap_except False (map anon [1, 9, 2, 3]) 1 \<and>
   bridged False (map anon [1, 9, 2, 3]) 1 \<and>
   (\<exists>ys. percolateDown 1 (map anon [1, 9, 2, 3]) False = Inr ys \<and> is_heap False ys \<and>
         mset ys = mset (map anon [1, 9, 2, 3]))"
proof -
  have h1: "1 < length (map anon [1, 9, 2, 3])" by simp
  have h2: "heap_except False (map anon [1, 9, 2, 3]) 1"
    by (simp add: heap_except_def parent_def heap_ord_def anon_def upt_rec)
  have h3: "bridged False (map anon [1, 9, 2, 3]) 1"
    by (simp add: bridged_def parent_def heap_ord_def anon_def upt_rec)
  from percolateDown_restores_heap[OF h1 h2 h3] h1 h2 h3 show ?thesis by blast
qed

text \<open>
  Claim C4 at the exhausted vector stream: the loop is not entered, and the
  \<open>cutoffs_.insert({read, min_top[0].level_})\<close> after it reads position 0 of the empty
  \<open>min_top\<close>. The claim asks for an empty result and no access outside the vector.
\<close>

theorem rankIncoming_exhausted_stream_out_of_bounds:
  "rankIncoming vector_stream L (VectorPlayerStream_init []) reporting_interval =
     Some (Inl OutOfBounds)"
  by (simp add: rankIncoming_def rankIncoming_loop.simps vector_stream_def
      VectorPlayerStream_init_def VectorPlayerStream_remaining_def at_def)

text \<open>
  Claim C5, negated: no stream under the pull contract, no interval of at least 1 and no
  conforming library give a result of \<open>rankIncoming\<close> with milestones \<open>m1 < m2\<close> whose
  recorded cutoffs decrease.
\<close>

theorem rankIncoming_cutoffs_decrease_counterexample:
  "\<not> (\<exists>L (S :: 's PlayerStream) s r res m1 m2 v1 v2.
        conforming L \<and> pull_contract S \<and> 1 \<le> r \<and>
        rankIncoming S L s r = Some (Inr res) \<and>
        m1 < m2 \<and> cutoffs res m1 = Some v1 \<and> cutoffs res m2 = Some v2 \<and> v2 < v1)"
proof (intro notI, elim exE conjE)
  fix L and S :: "'s PlayerStream" and s r res m1 m2 v1 v2
  assume h: "conforming L" "pull_contract S" "1 \<le> r" "rankIncoming S L s r = Some (Inr res)"
    and c: "m1 < m2" "cutoffs res m1 = Some v1" "cutoffs res m2 = Some v2" "v2 < v1"
  from h(3) have "0 < r" by simp
  from rankIncoming_cutoffs_mono[OF h(1,2) this h(4)] c(1-3) have "v1 \<le> v2"
    unfolding cutoffs_mono_def by blast
  with c(4) show False by simp
qed

text \<open>
  Claim C5, amended: for every stream that yields at least one record, every reporting
  interval of at least 1 and every conforming library, \<open>rankIncoming\<close> returns, and for all
  milestones \<open>m1 < m2\<close> recorded in its cutoffs the value at \<open>m1\<close> is at most the value
  at \<open>m2\<close>: the recorded cutoffs never decrease.
\<close>

theorem rankIncoming_cutoffs_never_decrease:
  assumes "conforming L" and "pull_contract S" and "1 \<le> r" and "streamed S s \<noteq> []"
  shows "\<exists>res. rankIncoming S L s r = Some (Inr res) \<and>
           (\<forall>m1 m2 v1 v2. m1 < m2 \<and> cutoffs res m1 = Some v1 \<and> cutoffs res m2 = Some v2
              \<longrightarrow> v1 \<le> v2)"
proof -
  from assms(3) have r: "0 < r" by simp
  from rankIncoming_result[OF assms(1,2) r assms(4)] obtain res where
    res: "rankIncoming S L s r = Some (Inr res)" by blast
  from rankIncoming_cutoffs_mono[OF assms(1,2) r res] res show ?thesis
    unfolding cutoffs_mono_def by blast
qed

theorem rankIncoming_cutoffs_never_decrease_witness:
  "\<exists>res. rankIncoming vector_stream ref_stdlib
            (VectorPlayerStream_init (map anon [10, 50, 5, 90, 30])) 2 = Some (Inr res) \<and>
         (\<forall>m1 m2 v1 v2. m1 < m2 \<and> cutoffs res m1 = Some v1 \<and> cutoffs res m2 = Some v2
            \<longrightarrow> v1 \<le> v2)"
  using rankIncoming_cutoffs_never_decrease[OF ref_stdlib_conforming vector_stream_contract,
      of 2 "VectorPlayerStream_init (map anon [10, 50, 5, 90, 30])"]
  by (simp add: streamed_vector)

text \<open>
  Claim C6 at the exhausted vector stream with the reporting interval 1: the stream yields
  no record, \<open>rankIncoming\<close> reads \<open>min_top[0]\<close> of the empty \<open>min_top\<close> and returns no
  result, so no \<open>top_\<close> of length \<open>min(reportingInterval, 0) = 0\<close>.
\<close>

theorem rankIncoming_top_size_empty_stream:
  "streamed vector_stream (VectorPlayerStream_init []) = [] \<and>
   rankIncoming vector_stream ref_stdlib (VectorPlayerStream_init []) 1 = Some (Inl OutOfBounds) \<and>
   \<not> (\<exists>res. rankIncoming vector_stream ref_stdlib (VectorPlayerStream_init []) 1 = Some (Inr res) \<and>
          length (top_players res) =
            min 1 (length (streamed vector_stream (VectorPlayerStream_init []))))"
  by (simp add: rankIncoming_empty[OF vector_stream_contract] streamed_vector)

text \<open>
  On every stream that yields at least one record the size law holds: with a reporting
  interval of at least 1 and a conforming library, \<open>rankIncoming\<close> returns a result whose
  \<open>top_\<close> has length exactly \<open>min(reportingInterval, totalStreamed)\<close>, where \<open>totalStreamed\<close>
  is the number of records the stream yields before it is exhausted, the value of
  \<open>remaining()\<close> at the call.
\<close>

lemma rankIncoming_top_size:
  assumes "conforming L" and "pull_contract S" and "1 \<le> r" and "streamed S s \<noteq> []"
  shows "\<exists>res. rankIncoming S L s r = Some (Inr res) \<and>
           length (top_players res) = min r (length (streamed S s)) \<and>
           length (streamed S s) = remaining S s"
proof -
  from assms(3) have r: "0 < r" by simp
  from rankIncoming_result[OF assms(1,2) r assms(4)] obtain mt cs where
    res: "rankIncoming S L s r =
       Some (Inr \<lparr>top_players = sort_less L mt,
                  cutoffs = cutoffs_insert cs (length (streamed S s)) (level (mt ! 0))\<rparr>)"
    and inv: "rank_inv r (streamed S s) (length (streamed S s)) mt cs" by blast
  have "length (sort_less L mt) = length mt"
    using conforming_sort[OF assms(1), of mt] by (metis mset_eq_length)
  with rank_inv_topk[OF inv] res length_streamed[OF assms(2), of s] show ?thesis by simp
qed

text \<open>
  Claim C9: for every stream under the pull contract, every library and every interval,
  \<open>rankIncoming\<close> returns and what it returns is not the \<open>ExhaustedSource\<close> error; its result
  is the same for every stream whose \<open>nextPlayer\<close> differs only where nothing remains, so
  \<open>nextPlayer\<close> is not called there; and \<open>nextPlayer\<close> of the vector stream fails, with
  \<open>ExhaustedSource\<close>, if and only if \<open>remaining\<close> is 0.
\<close>

theorem rankIncoming_never_exhausts:
  assumes "pull_contract S"
  shows "(\<exists>res. rankIncoming S L s r = Some res \<and> res \<noteq> Inl ExhaustedSource) \<and>
         (\<forall>S'. remaining S' = remaining S \<and>
               (\<forall>t. 0 < remaining S t \<longrightarrow> nextPlayer S' t = nextPlayer S t) \<longrightarrow>
               rankIncoming S' L s r = rankIncoming S L s r) \<and>
         (\<forall>v. (VectorPlayerStream_nextPlayer v = Inl ExhaustedSource
                 \<longleftrightarrow> VectorPlayerStream_remaining v = 0) \<and>
              (isl (VectorPlayerStream_nextPlayer v) \<longleftrightarrow> VectorPlayerStream_remaining v = 0))"
proof (intro conjI allI impI)
  show "\<exists>res. rankIncoming S L s r = Some res \<and> res \<noteq> Inl ExhaustedSource"
    using rankIncoming_error[OF assms, of L s r] rankIncoming_steps[OF assms, of L s r] by auto
next
  fix S' :: "'a PlayerStream"
  assume a: "remaining S' = remaining S \<and>
    (\<forall>t. 0 < remaining S t \<longrightarrow> nextPlayer S' t = nextPlayer S t)"
  then have "rankIncoming_loop S' L r s 0 [] Map.empty = rankIncoming_loop S L r s 0 [] Map.empty"
    using rankIncoming_loop_steps_gen[OF assms, of S' L r s 0 "[]" Map.empty]
      rankIncoming_loop_steps_gen[OF assms refl, of L r s 0 "[]" Map.empty] by simp
  then show "rankIncoming S' L s r = rankIncoming S L s r"
    by (simp add: rankIncoming_def)
next
  fix v
  show "VectorPlayerStream_nextPlayer v = Inl ExhaustedSource \<longleftrightarrow> VectorPlayerStream_remaining v = 0"
    by (auto simp: VectorPlayerStream_nextPlayer_def VectorPlayerStream_remaining_def at_def Let_def)
  show "isl (VectorPlayerStream_nextPlayer v) \<longleftrightarrow> VectorPlayerStream_remaining v = 0"
    by (auto simp: VectorPlayerStream_nextPlayer_def VectorPlayerStream_remaining_def at_def Let_def)
qed

theorem rankIncoming_never_exhausts_witness:
  "(\<exists>res. rankIncoming vector_stream ref_stdlib (VectorPlayerStream_init (map anon [50, 10])) 3
            = Some res \<and> res \<noteq> Inl ExhaustedSource) \<and>
   rankIncoming (vector_stream\<lparr>nextPlayer := (\<lambda>v. if VectorPlayerStream_remaining v = 0
         then Inr (anon 7, v) else VectorPlayerStream_nextPlayer v)\<rparr>) ref_stdlib
       (VectorPlayerStream_init (map anon [50, 10])) 3 =
     rankIncoming vector_stream ref_stdlib (VectorPlayerStream_init (map anon [50, 10])) 3"
proof -
  note t = rankIncoming_never_exhausts[OF vector_stream_contract, of ref_stdlib
      "VectorPlayerStream_init (map anon [50, 10])" 3]
  from t have a: "\<exists>res. rankIncoming vector_stream ref_stdlib
      (VectorPlayerStream_init (map anon [50, 10])) 3 = Some res \<and> res \<noteq> Inl ExhaustedSource"
    by blast
  from t have "\<forall>S'. remaining S' = remaining vector_stream \<and>
               (\<forall>t. 0 < remaining vector_stream t \<longrightarrow> nextPlayer S' t = nextPlayer vector_stream t) \<longrightarrow>
               rankIncoming S' ref_stdlib (VectorPlayerStream_init (map anon [50, 10])) 3 =
               rankIncoming vector_stream ref_stdlib (VectorPlayerStream_init (map anon [50, 10])) 3"
    by blast
  from this[rule_format, of "vector_stream\<lparr>nextPlayer := (\<lambda>v. if VectorPlayerStream_remaining v = 0
         then Inr (anon 7, v) else VectorPlayerStream_nextPlayer v)\<rparr>"] a
  show ?thesis by (simp add: vector_stream_def)
qed

text \<open>
  Claim C8: on the vector stream of five records with levels 10, 50, 5, 90, 30 and the
  reporting interval 2, with every conforming library, \<open>rankIncoming\<close> returns \<open>top_\<close> with
  levels 50, 90 in this order and \<open>cutoffs_\<close> equal to \<open>{2 -> 10, 4 -> 50, 5 -> 50}\<close>.
\<close>

theorem rankIncoming_scenario:
  assumes L: "conforming L" and ps: "map level ps = [10, 50, 5, 90, 30]"
  shows "\<exists>res. rankIncoming vector_stream L (VectorPlayerStream_init ps) 2 = Some (Inr res) \<and>
           map level (top_players res) = [50, 90] \<and>
           cutoffs res = [2 \<mapsto> 10, 4 \<mapsto> 50, 5 \<mapsto> 50]"
proof -
  from ps obtain p1 p2 p3 p4 p5 where
    p: "ps = [p1, p2, p3, p4, p5]" and
    l: "level p1 = 10" "level p2 = 50" "level p3 = 5" "level p4 = 90" "level p5 = 30"
    by (auto simp: map_eq_Cons_conv)
  have "mset (make_heap_greater L [p1, p2]) = {#p1, p2#}" "is_heap False (make_heap_greater L [p1, p2])"
    using conforming_make_heap_greater[OF L, of "[p1, p2]"] by simp_all
  then have h: "make_heap_greater L [p1, p2] = [p1, p2]"
    by (rule two_heap) (simp add: l)
  have n: "(0::nat) + 1 + 1 = 2" "(0::nat) + 1 + 1 + 1 = 3" "(0::nat) + 1 + 1 + 1 + 1 = 4"
    "(0::nat) + 1 + 1 + 1 + 1 + 1 = 5" by simp_all
  have s1: "rank_step L 2 (0 + 1) p1 [] Map.empty = Inr ([p1], Map.empty)"
    by (simp add: rank_step_def)
  have s2: "rank_step L 2 (0 + 1 + 1) p2 [p1] Map.empty = Inr ([p1, p2], [2 \<mapsto> 10])"
    unfolding n by (simp add: rank_step_def h at_def cutoffs_insert_def l)
  have s3: "rank_step L 2 (0 + 1 + 1 + 1) p3 [p1, p2] [2 \<mapsto> 10] = Inr ([p1, p2], [2 \<mapsto> 10])"
    unfolding n by (simp add: rank_step_def at_def l)
  have s4: "rank_step L 2 (0 + 1 + 1 + 1 + 1) p4 [p1, p2] [2 \<mapsto> 10] = Inr ([p2, p4], [2 \<mapsto> 10, 4 \<mapsto> 50])"
    unfolding n
    by (simp add: rank_step_def at_def l replaceMin_def percolateDown_def
        percolateDown_loop.simps pick_child_def iter_swap_def player_lt_def player_gt_def
        cutoffs_insert_def)
  have s5: "rank_step L 2 (0 + 1 + 1 + 1 + 1 + 1) p5 [p2, p4] [2 \<mapsto> 10, 4 \<mapsto> 50] = Inr ([p2, p4], [2 \<mapsto> 10, 4 \<mapsto> 50])"
    unfolding n by (simp add: rank_step_def at_def l)
  have "rank_steps L 2 ps 0 [] Map.empty =
          Inr (0 + 1 + 1 + 1 + 1 + 1, [p2, p4], [2 \<mapsto> 10, 4 \<mapsto> 50])"
    by (simp only: p rank_steps.simps s1 s2 s3 s4 s5 sum.case prod.case)
  then have "rank_steps L 2 ps 0 [] Map.empty = Inr (5, [p2, p4], [2 \<mapsto> 10, 4 \<mapsto> 50])"
    by simp
  then have "rankIncoming vector_stream L (VectorPlayerStream_init ps) 2 =
      Some (Inr \<lparr>top_players = sort_less L [p2, p4], cutoffs = [2 \<mapsto> 10, 4 \<mapsto> 50, 5 \<mapsto> 50]\<rparr>)"
    by (simp add: rankIncoming_steps[OF vector_stream_contract] streamed_vector at_def
        cutoffs_insert_def l)
  moreover have "map level (sort_less L [p2, p4]) = [50, 90]"
    by (simp add: sort_less_keys[OF L] l)
  ultimately show ?thesis by simp
qed

theorem rankIncoming_scenario_witness:
  "\<exists>res. rankIncoming vector_stream ref_stdlib
           (VectorPlayerStream_init (map anon [10, 50, 5, 90, 30])) 2 = Some (Inr res) \<and>
         map level (top_players res) = [50, 90] \<and>
         cutoffs res = [2 \<mapsto> 10, 4 \<mapsto> 50, 5 \<mapsto> 50]"
  using rankIncoming_scenario[OF ref_stdlib_conforming, of "map anon [10, 50, 5, 90, 30]"]
  by (simp add: anon_def)

text \<open>
  Claim C3 at the vector stream with levels 50, 10 and the reporting interval 3: the
  stream ends before \<open>min_top\<close> is made a heap, the final cutoff is the level of the first
  record read, 50, and the smallest level of the returned \<open>top_\<close> is 10.
\<close>

theorem rankIncoming_short_stream_cutoff:
  "\<exists>res. rankIncoming vector_stream ref_stdlib (VectorPlayerStream_init (map anon [50, 10])) 3
           = Some (Inr res) \<and>
         map level (top_players res) = [10, 50] \<and> cutoffs res = [2 \<mapsto> 50]"
proof -
  have a: "rank_step ref_stdlib 3 (0 + 1) (anon 50) [] Map.empty = Inr ([anon 50], Map.empty)"
    by (simp add: rank_step_def)
  have b: "rank_step ref_stdlib 3 (0 + 1 + 1) (anon 10) [anon 50] Map.empty = Inr ([anon 50, anon 10], Map.empty)"
    by (simp add: rank_step_def)
  have "rank_steps ref_stdlib 3 (map anon [50, 10]) 0 [] Map.empty =
          Inr (0 + 1 + 1, map anon [50, 10], Map.empty)"
    by (simp only: list.map rank_steps.simps a b sum.case prod.case)
  then have "rank_steps ref_stdlib 3 (map anon [50, 10]) 0 [] Map.empty =
          Inr (2, map anon [50, 10], Map.empty)" by simp
  then have "rankIncoming vector_stream ref_stdlib (VectorPlayerStream_init (map anon [50, 10])) 3
      = Some (Inr \<lparr>top_players = sort_key level [anon 50, anon 10], cutoffs = [2 \<mapsto> 50]\<rparr>)"
    by (simp add: rankIncoming_steps[OF vector_stream_contract] streamed_vector at_def
        cutoffs_insert_def ref_stdlib_def anon_def)
  then show ?thesis by (simp add: anon_def)
qed

text \<open>
  Claim C1: with a conforming library, for every population of at least 2 records
  \<open>heapRank\<close> and \<open>quickSelectRank\<close> return, and the levels of \<open>top_\<close>, in the order returned,
  are the \<open>topCount = floor(0.1 * populationSize)\<close> largest levels of the input in ascending
  order; and for every stream under the pull contract that yields at least one record and
  every reporting interval of at least 1, \<open>rankIncoming\<close> returns and the levels of its
  \<open>top_\<close> are the \<open>min(reportingInterval, totalStreamed)\<close> largest levels of the records
  streamed, in ascending order.
\<close>

theorem top_set_correct:
  assumes "conforming L"
  shows "(2 \<le> length players \<longrightarrow>
           (\<exists>r1 r2. heapRank L players = Inr r1 \<and> quickSelectRank players = Inr r2 \<and>
              map level (top_players r1) = largest (length players div 10) (map level players) \<and>
              map level (top_players r2) = largest (length players div 10) (map level players))) \<and>
         (pull_contract S \<and> streamed S s \<noteq> [] \<and> 1 \<le> r \<longrightarrow>
           (\<exists>res. rankIncoming S L s r = Some (Inr res) \<and>
              map level (top_players res) =
                largest (min r (length (streamed S s))) (map level (streamed S s))))"
proof (intro conjI impI)
  assume "2 \<le> length players"
  from heapRank_spec[OF assms this] quickSelectRank_spec[of players]
  show "\<exists>r1 r2. heapRank L players = Inr r1 \<and> quickSelectRank players = Inr r2 \<and>
      map level (top_players r1) = largest (length players div 10) (map level players) \<and>
      map level (top_players r2) = largest (length players div 10) (map level players)"
    by blast
next
  assume a: "pull_contract S \<and> streamed S s \<noteq> [] \<and> 1 \<le> r"
  then have r: "0 < r" by simp
  from a rankIncoming_result[OF assms _ r, of S s] obtain mt cs where
    res: "rankIncoming S L s r =
       Some (Inr \<lparr>top_players = sort_less L mt,
                  cutoffs = cutoffs_insert cs (length (streamed S s)) (level (mt ! 0))\<rparr>)"
    and inv: "rank_inv r (streamed S s) (length (streamed S s)) mt cs" by blast
  from rank_inv_topk[OF inv] sorted_keys_largest[OF assms, of mt "map level (streamed S s)"]
  have "map level (sort_less L mt) =
      largest (min r (length (streamed S s))) (map level (streamed S s))" by simp
  with res show "\<exists>res. rankIncoming S L s r = Some (Inr res) \<and>
      map level (top_players res) =
        largest (min r (length (streamed S s))) (map level (streamed S s))" by simp
qed

theorem top_set_correct_witness:
  "(\<exists>r1 r2. heapRank ref_stdlib (map anon [3, 1, 4, 1, 5, 9, 2, 6, 5, 3, 5, 8]) = Inr r1 \<and>
      quickSelectRank (map anon [3, 1, 4, 1, 5, 9, 2, 6, 5, 3, 5, 8]) = Inr r2 \<and>
      map level (top_players r1) = [9] \<and> map level (top_players r2) = [9]) \<and>
   (\<exists>res. rankIncoming vector_stream ref_stdlib
             (VectorPlayerStream_init (map anon [10, 50, 5, 90, 30])) 2 = Some (Inr res) \<and>
      map level (top_players res) = [50, 90])"
proof -
  note t = top_set_correct[OF ref_stdlib_conforming,
      of "map anon [3, 1, 4, 1, 5, 9, 2, 6, 5, 3, 5, 8]" vector_stream
         "VectorPlayerStream_init (map anon [10, 50, 5, 90, 30])" 2]
  have l1: "largest (length (map anon [3, 1, 4, 1, 5, 9, 2, 6, 5, 3, 5, 8]) div 10)
      (map level (map anon [3, 1, 4, 1, 5, 9, 2, 6, 5, 3, 5, 8])) = [9]"
    by (simp add: largest_def anon_def)
  have l2: "largest (min 2 (length (map anon [10, 50, 5, 90, 30])))
      (map level (map anon [10, 50, 5, 90, 30])) = [50, 90]"
    by (simp add: largest_def anon_def)
  have h: "2 \<le> length (map anon [3, 1, 4, 1, 5, 9, 2, 6, 5, 3, 5, 8])" by simp
  from t h l1 l2 vector_stream_contract show ?thesis
    by (simp only: streamed_vector) simp
qed

text \<open>
  Claim C2, as stated, at a population of one record: \<open>heapRank\<close> returns the population
  itself, of length 1, and \<open>floor(0.1 * 1)\<close> is 0.
\<close>

theorem heapRank_size_one_counterexample:
  "heapRank ref_stdlib [anon 7] = Inr \<lparr>top_players = [anon 7], cutoffs = Map.empty\<rparr> \<and>
   length [anon 7] \<noteq> length [anon 7] div 10"
  by (simp add: heapRank_def)

text \<open>
  Claim C2, amended: for every population, of size \<open>n \<ge> 0\<close>, \<open>quickSelectRank\<close> returns a
  \<open>top_\<close> of length \<open>floor(0.1 * n)\<close>, also at the sizes 0 and 1; \<open>heapRank\<close>, with a
  conforming library, returns a \<open>top_\<close> of length \<open>floor(0.1 * n)\<close> for every size but 1, and
  for the size 1 the population itself, of length 1.
\<close>

theorem offline_size_law:
  assumes "conforming L"
  shows "(\<exists>res. quickSelectRank players = Inr res \<and>
            length (top_players res) = length players div 10) \<and>
         (\<exists>res. heapRank L players = Inr res \<and>
            length (top_players res) =
              (if length players = 1 then 1 else length players div 10))"
proof
  from quickSelectRank_spec[of players]
  show "\<exists>res. quickSelectRank players = Inr res \<and>
      length (top_players res) = length players div 10" by blast
next
  show "\<exists>res. heapRank L players = Inr res \<and>
      length (top_players res) = (if length players = 1 then 1 else length players div 10)"
  proof (cases "length players \<le> 1")
    case True
    then have "length players = 0 \<or> length players = 1" by linarith
    with heapRank_small[OF True, of L] show ?thesis by auto
  next
    case False
    then have "2 \<le> length players" by simp
    from heapRank_spec[OF assms this] False show ?thesis by auto
  qed
qed

theorem offline_size_law_witness:
  "(\<exists>res. quickSelectRank [anon 7] = Inr res \<and> length (top_players res) = 0) \<and>
   (\<exists>res. heapRank ref_stdlib [anon 7] = Inr res \<and> length (top_players res) = 1) \<and>
   (\<exists>res. heapRank ref_stdlib [] = Inr res \<and> length (top_players res) = 0)"
  using offline_size_law[OF ref_stdlib_conforming, of "[anon 7]"]
    offline_size_law[OF ref_stdlib_conforming, of "[]"]
  by simp

text \<open>
  Claim C10: for every input vector, \<open>quickSelect(players, 0, size - 1, topCount)\<close> and then
  \<open>quickSort(players, 0, topCount - 1)\<close> with \<open>topCount = floor(0.1 * size)\<close> return, and so
  does \<open>quickSelectRank\<close>. Every element access of \<open>lomuto_partition\<close>, of the two scans of
  \<open>hoare_partition\<close> and of the swaps is checked in the model, which returns
  \<open>OutOfBounds\<close> at the first index outside \<open>[0, size)\<close>: none occurs.
\<close>

theorem quickSelectRank_in_bounds:
  "\<exists>a1 a2 res.
     quickSelect players 0 (int (length players) - 1) (top_tenth (length players)) = Inr a1 \<and>
     quickSort a1 0 (top_tenth (length players) - 1) = Inr a2 \<and>
     quickSelectRank players = Inr res"
  using quickSelectRank_run[of players] by blast

end
